theory Spec2Isabelle
  imports Main "HOL-Library.Sublist" "HOL-Library.AList"
begin

section \<open>Post-processing of generated answers (json\_output\_utils.py)\<close>

text \<open>
  A Python \<open>str\<close> is modelled as a \<open>string\<close>, the list of its characters; a character
  outside ASCII is written as the bytes of its UTF-8 encoding. The character
  classes of \<open>str.strip\<close> and of the \<open>re\<close> module (\<open>\s\<close>, \<open>\w\<close>, \<open>\d\<close>) are
  modelled on the ASCII range. The transliteration \<open>anyascii\<close> comes from a library outside
  the repository: every function that calls it takes it as the parameter \<open>tr\<close>.
\<close>

subsection \<open>Characters\<close>

definition is_space :: "char \<Rightarrow> bool" where
  \<comment> \<open>\<open>str.isspace\<close> on ASCII: TAB, LF, VT, FF, CR, FS, GS, RS, US and the blank.\<close>
  "is_space c = (c \<in> set [CHR 0x09, CHR 0x0A, CHR 0x0B, CHR 0x0C, CHR 0x0D,
                            CHR 0x1C, CHR 0x1D, CHR 0x1E, CHR 0x1F, CHR 0x20])"

definition is_digit :: "char \<Rightarrow> bool" where
  "is_digit c = (c \<in> set ''0123456789'')"

definition is_upper :: "char \<Rightarrow> bool" where
  "is_upper c = (c \<in> set ''ABCDEFGHIJKLMNOPQRSTUVWXYZ'')"

definition is_lower :: "char \<Rightarrow> bool" where
  "is_lower c = (c \<in> set ''abcdefghijklmnopqrstuvwxyz'')"

definition is_alpha :: "char \<Rightarrow> bool" where
  "is_alpha c = (is_upper c \<or> is_lower c)"

definition is_word :: "char \<Rightarrow> bool" where
  \<comment> \<open>\<open>\w\<close>: letters, digits and the underscore.\<close>
  "is_word c = (is_alpha c \<or> is_digit c \<or> c = CHR ''_'')"

definition lower_char :: "char \<Rightarrow> char" where
  "lower_char c =
     (case map_of (zip ''ABCDEFGHIJKLMNOPQRSTUVWXYZ'' ''abcdefghijklmnopqrstuvwxyz'') c of
        None \<Rightarrow> c | Some d \<Rightarrow> d)"

definition upper_char :: "char \<Rightarrow> char" where
  "upper_char c =
     (case map_of (zip ''abcdefghijklmnopqrstuvwxyz'' ''ABCDEFGHIJKLMNOPQRSTUVWXYZ'') c of
        None \<Rightarrow> c | Some d \<Rightarrow> d)"

definition str_lower :: "string \<Rightarrow> string" where
  "str_lower s = map lower_char s"

subsection \<open>String methods\<close>

definition lstrip_chars :: "(char \<Rightarrow> bool) \<Rightarrow> string \<Rightarrow> string" where
  "lstrip_chars p s = dropWhile p s"

definition rstrip_chars :: "(char \<Rightarrow> bool) \<Rightarrow> string \<Rightarrow> string" where
  "rstrip_chars p s = rev (dropWhile p (rev s))"

definition strip_chars :: "(char \<Rightarrow> bool) \<Rightarrow> string \<Rightarrow> string" where
  "strip_chars p s = rstrip_chars p (lstrip_chars p s)"

definition py_strip :: "string \<Rightarrow> string" where
  \<comment> \<open>\<open>s.strip()\<close>\<close>
  "py_strip s = strip_chars is_space s"

definition startswith :: "string \<Rightarrow> string \<Rightarrow> bool" where
  "startswith s p = (take (length p) s = p)"

definition endswith :: "string \<Rightarrow> string \<Rightarrow> bool" where
  "endswith s p = startswith (rev s) (rev p)"

text \<open>\<open>s.split(sep)\<close> for a non-empty separator; Python raises ValueError on an empty one,
  which the callers below guard.\<close>

function split_from :: "string \<Rightarrow> string \<Rightarrow> string \<Rightarrow> string list" where
  "split_from sep acc [] = [rev acc]"
| "split_from sep acc (c # cs) =
     (if sep \<noteq> [] \<and> startswith (c # cs) sep
      then rev acc # split_from sep [] (drop (length sep) (c # cs))
      else split_from sep (c # acc) cs)"
  by pat_completeness auto
termination
  by (relation "measure (\<lambda>(sep, acc, s). length s)") auto

definition str_split :: "string \<Rightarrow> string \<Rightarrow> string list" where
  "str_split s sep = split_from sep [] s"

text \<open>\<open>s.split(sep, 1)\<close>: at most one cut, at the first occurrence.\<close>

fun split_once_from :: "string \<Rightarrow> string \<Rightarrow> string \<Rightarrow> string list" where
  "split_once_from sep acc [] = [rev acc]"
| "split_once_from sep acc (c # cs) =
     (if sep \<noteq> [] \<and> startswith (c # cs) sep
      then [rev acc, drop (length sep) (c # cs)]
      else split_once_from sep (c # acc) cs)"

definition str_split1 :: "string \<Rightarrow> string \<Rightarrow> string list" where
  "str_split1 s sep = split_once_from sep [] s"

text \<open>\<open>s.replace(old, new)\<close>: every occurrence found by a left-to-right scan that does not
  overlap the previous one; an empty \<open>old\<close> matches between all characters.\<close>

function replace_from :: "string \<Rightarrow> string \<Rightarrow> string \<Rightarrow> string" where
  "replace_from old new [] = []"
| "replace_from old new (c # cs) =
     (if old \<noteq> [] \<and> startswith (c # cs) old
      then new @ replace_from old new (drop (length old) (c # cs))
      else c # replace_from old new cs)"
  by pat_completeness auto
termination
  by (relation "measure (\<lambda>(old, new, s). length s)") auto

definition str_replace :: "string \<Rightarrow> string \<Rightarrow> string \<Rightarrow> string" where
  "str_replace s old new =
     (if old = [] then new @ concat (map (\<lambda>c. c # new) s) else replace_from old new s)"

definition capitalize :: "string \<Rightarrow> string" where
  "capitalize s = (case s of [] \<Rightarrow> [] | c # cs \<Rightarrow> upper_char c # str_lower cs)"

text \<open>\<open>s[1:-1]\<close>\<close>

definition slice_1_m1 :: "string \<Rightarrow> string" where
  "slice_1_m1 s = butlast (tl s)"

subsection \<open>normalize\_id\<close>

definition strip_prefix :: "string \<Rightarrow> string \<Rightarrow> string" where
  \<comment> \<open>one round of the loop: \<open>if norm.startswith(prefix): norm = norm[len(prefix):]\<close>\<close>
  "strip_prefix norm p = (if startswith norm p then drop (length p) norm else norm)"

definition id_prefixes :: "string list" where
  "id_prefixes = [''paperid '', ''paperId '', ''arxiv:'', ''arXiv:'']"

definition is_trail_punct :: "char \<Rightarrow> bool" where
  \<comment> \<open>the characters of \<open>rstrip(".,;: ]")\<close>\<close>
  "is_trail_punct c = (c \<in> set ''.,;: ]'')"

fun normalize_id :: "(string \<Rightarrow> string) \<Rightarrow> string option \<Rightarrow> string" where
  "normalize_id tr None = []"
| "normalize_id tr (Some id_token) =
     (let norm = py_strip (tr id_token);
          norm = foldl strip_prefix norm id_prefixes;
          norm = rstrip_chars is_trail_punct norm;
          norm = lstrip_chars (\<lambda>c. c = CHR ''['') norm
      in norm)"

subsection \<open>Errors and dynamic values\<close>

datatype py_error =
    InvalidContent  \<comment> \<open>\<open>Exception("Invalid content generated for the query by the LLM")\<close>\<close>
  | IndexError
  | KeyError
  | ValueError

datatype pyval =
    PNone
  | PBool bool
  | PInt int
  | PStr string
  | PList "pyval list"
  | PDict "(string \<times> pyval) list"

subsection \<open>The regular expressions of the module\<close>

text \<open>
  The patterns of the module use literals, character classes under \<open>*\<close>, \<open>+\<close> and \<open>*?\<close>,
  an optional group, concatenation and \<open>\b\<close>. \<open>matches r t i\<close> lists the end positions of
  the matches of \<open>r\<close> in \<open>t\<close> that start at \<open>i\<close>, in the order in which the backtracking
  matcher of \<open>re\<close> tries them: its match is the head of the list.
\<close>

datatype rx =
    Str bool string  \<comment> \<open>a literal; the flag is \<open>re.IGNORECASE\<close>\<close>
  | Star "char \<Rightarrow> bool"
  | Plus "char \<Rightarrow> bool"
  | LazyStar "char \<Rightarrow> bool"
  | Opt rx
  | Seq rx rx
  | WordB

definition run_len :: "(char \<Rightarrow> bool) \<Rightarrow> string \<Rightarrow> nat \<Rightarrow> nat" where
  "run_len p t i = length (takeWhile p (drop i t))"

definition word_at :: "string \<Rightarrow> nat \<Rightarrow> bool" where
  "word_at t i = (i < length t \<and> is_word (t ! i))"

definition lit_eq :: "bool \<Rightarrow> string \<Rightarrow> string \<Rightarrow> bool" where
  "lit_eq ic a b = (if ic then str_lower a = str_lower b else a = b)"

fun matches :: "rx \<Rightarrow> string \<Rightarrow> nat \<Rightarrow> nat list" where
  "matches (Str ic w) t i =
     (if lit_eq ic (take (length w) (drop i t)) w then [i + length w] else [])"
| "matches (Star p) t i = map (\<lambda>k. i + k) (rev [0 ..< Suc (run_len p t i)])"
| "matches (Plus p) t i = map (\<lambda>k. i + k) (rev [1 ..< Suc (run_len p t i)])"
| "matches (LazyStar p) t i = map (\<lambda>k. i + k) [0 ..< Suc (run_len p t i)]"
| "matches (Opt r) t i = matches r t i @ [i]"
| "matches (Seq a b) t i = concat (map (matches b t) (matches a t i))"
| "matches WordB t i =
     (if (0 < i \<and> word_at t (i - 1)) \<noteq> word_at t i then [i] else [])"

definition rx_match :: "rx \<Rightarrow> string \<Rightarrow> nat \<Rightarrow> nat option" where
  "rx_match r t i = (case matches r t i of [] \<Rightarrow> None | e # _ \<Rightarrow> Some e)"

function search_from :: "rx \<Rightarrow> string \<Rightarrow> nat \<Rightarrow> (nat \<times> nat) option" where
  \<comment> \<open>\<open>re.search\<close>: the match at the leftmost position that has one\<close>
  "search_from r t i =
     (if length t < i then None
      else (case rx_match r t i of
              None \<Rightarrow> search_from r t (Suc i)
            | Some e \<Rightarrow> Some (i, e)))"
  by pat_completeness auto
termination
  by (relation "measure (\<lambda>(r, t, i). Suc (length t) - i)") auto

declare search_from.simps [simp del]

definition rx_search :: "rx \<Rightarrow> string \<Rightarrow> (nat \<times> nat) option" where
  "rx_search r t = search_from r t 0"

definition substring :: "string \<Rightarrow> nat \<Rightarrow> nat \<Rightarrow> string" where
  "substring t i e = take (e - i) (drop i t)"

text \<open>\<open>re.sub\<close>: \<open>f t i\<close> is the end of the match at \<open>i\<close> with its replacement text. None of
  the patterns below matches the empty string, so a match always advances.\<close>

function sub_from :: "(string \<Rightarrow> nat \<Rightarrow> (nat \<times> string) option) \<Rightarrow> string \<Rightarrow> nat \<Rightarrow> string" where
  "sub_from f t i =
     (if length t \<le> i then []
      else (case f t i of
              None \<Rightarrow> t ! i # sub_from f t (Suc i)
            | Some (e, out) \<Rightarrow>
                if i < e then out @ sub_from f t e else t ! i # sub_from f t (Suc i)))"
  by pat_completeness auto
termination
  by (relation "measure (\<lambda>(f, t, i). length t - i)") auto

declare sub_from.simps [simp del]

definition re_sub :: "rx \<Rightarrow> string \<Rightarrow> string \<Rightarrow> string" where
  "re_sub r repl t = sub_from (\<lambda>t i. map_option (\<lambda>e. (e, repl)) (rx_match r t i)) t 0"

function findall_from :: "rx \<Rightarrow> string \<Rightarrow> nat \<Rightarrow> string list" where
  "findall_from r t i =
     (if length t \<le> i then []
      else (case rx_match r t i of
              None \<Rightarrow> findall_from r t (Suc i)
            | Some e \<Rightarrow>
                if i < e then substring t i e # findall_from r t e
                else findall_from r t (Suc i)))"
  by pat_completeness auto
termination
  by (relation "measure (\<lambda>(r, t, i). length t - i)") auto

declare findall_from.simps [simp del]

definition re_findall :: "rx \<Rightarrow> string \<Rightarrow> string list" where
  "re_findall r t = findall_from r t 0"

subsection \<open>find\_tldr\_super\_token and get\_section\_text\<close>

definition tldr_rx :: rx where
  \<comment> \<open>\<open>\b\w*tldr\w*\b\<close> with \<open>re.IGNORECASE\<close>\<close>
  "tldr_rx = Seq WordB (Seq (Star is_word) (Seq (Str True ''tldr'') (Seq (Star is_word) WordB)))"

definition super_token_rx :: "string \<Rightarrow> rx" where
  \<comment> \<open>\<open>[^\s]*{re.escape(tldr_token)}[^\s]*\<close> with \<open>re.IGNORECASE\<close>; the token consists of
     word characters, which \<open>re.escape\<close> leaves as they are\<close>
  "super_token_rx tldr_token =
     Seq (Star (\<lambda>c. \<not> is_space c)) (Seq (Str True tldr_token) (Star (\<lambda>c. \<not> is_space c)))"

definition find_tldr_super_token :: "string \<Rightarrow> string option" where
  "find_tldr_super_token text =
     (case rx_search tldr_rx text of
        None \<Rightarrow> None
      | Some (i, e) \<Rightarrow>
          (let tldr_token = substring text i e in
           case rx_search (super_token_rx tldr_token) text of
             None \<Rightarrow> None
           | Some (i', e') \<Rightarrow> Some (substring text i' e')))"

record citation_paper =
  corpus_id :: string
  p_title :: "pyval option"
  p_authors :: "pyval option"
  p_year :: "int option"
  p_venue :: "pyval option"
  p_n_citations :: "pyval option"

record citation =
  c_id :: string
  snippets :: "string list"
  score :: "pyval option"
  paper :: citation_paper

record sec =
  sec_title :: string
  sec_tldr :: string
  sec_text :: string
  sec_citations :: "citation list"

definition list_rx :: rx where
  "list_rx = Seq (Star is_space) (Str False ''(list)'')"

definition synthesis_rx :: rx where
  "synthesis_rx = Seq (Star is_space) (Str False ''(synthesis)'')"

definition is_hash :: "char \<Rightarrow> bool" where
  "is_hash c = (c = CHR ''#'')"

definition get_section_text :: "string \<Rightarrow> py_error + sec" where
  "get_section_text gen_text =
     (case find_tldr_super_token gen_text of
        None \<Rightarrow> Inl InvalidContent
      | Some tldr_token \<Rightarrow>
          if tldr_token = [] then Inl ValueError
          else
            (let parts = str_split gen_text tldr_token in
             if 1 < length parts then
               (let title = py_strip (parts ! 0);
                    title = re_sub list_rx [] title;
                    title = re_sub synthesis_rx [] title
                in case str_split1 (py_strip (parts ! 1)) [CHR 0x0A] of
                     tldr # text # _ \<Rightarrow>
                       Inr \<lparr> sec_title = py_strip (strip_chars is_hash title),
                             sec_tldr = py_strip (strip_chars is_hash tldr),
                             sec_text = text,
                             sec_citations = [] \<rparr>
                   | _ \<Rightarrow> Inl IndexError)
             else Inl InvalidContent))"

subsection \<open>Numbers as text\<close>

function str_nat :: "nat \<Rightarrow> string" where
  \<comment> \<open>\<open>str(n)\<close> for \<open>n \<ge> 0\<close>\<close>
  "str_nat n =
     (if n < 10 then [''0123456789'' ! n]
      else str_nat (n div 10) @ [''0123456789'' ! (n mod 10)])"
  by pat_completeness auto
termination
  by (relation "measure id") auto

declare str_nat.simps [simp del]

definition str_int :: "int \<Rightarrow> string" where
  "str_int i = (if i < 0 then CHR ''-'' # str_nat (nat (- i)) else str_nat (nat i))"

definition digit_val :: "char \<Rightarrow> nat option" where
  "digit_val c = map_of (zip ''0123456789'' [0, 1, 2, 3, 4, 5, 6, 7, 8, 9]) c"

text \<open>The digits of \<open>int(s)\<close>: decimal digits, single underscores allowed between them.\<close>

fun digits_value :: "string \<Rightarrow> nat \<Rightarrow> bool \<Rightarrow> nat option" where
  "digits_value [] acc after_digit = (if after_digit then Some acc else None)"
| "digits_value (c # cs) acc after_digit =
     (if c = CHR ''_'' then (if after_digit \<and> cs \<noteq> [] then digits_value cs acc False else None)
      else (case digit_val c of
              None \<Rightarrow> None
            | Some d \<Rightarrow> digits_value cs (10 * acc + d) True))"

definition is_c_space :: "char \<Rightarrow> bool" where
  \<comment> \<open>the white space that \<open>int\<close> skips around an ASCII string: TAB, LF, VT, FF, CR, blank\<close>
  "is_c_space c = (c \<in> set [CHR 0x09, CHR 0x0A, CHR 0x0B, CHR 0x0C, CHR 0x0D, CHR 0x20])"

definition too_many_digits :: "string \<Rightarrow> bool" where
  \<comment> \<open>the limit of 4300 digits on the conversion of a string to an \<open>int\<close>\<close>
  "too_many_digits body = (4300 < length (filter (\<lambda>c. c \<noteq> CHR ''_'') body))"

definition py_int :: "string \<Rightarrow> int option" where
  \<comment> \<open>\<open>int(s)\<close> for an ASCII string; None stands for ValueError\<close>
  "py_int s =
     (case strip_chars is_c_space s of
        [] \<Rightarrow> None
      | c # cs \<Rightarrow>
          (let body = (if c = CHR ''-'' \<or> c = CHR ''+'' then cs else c # cs) in
           if too_many_digits body then None
           else if c = CHR ''-'' then map_option (\<lambda>n. - int n) (digits_value body 0 False)
           else map_option int (digits_value body 0 False)))"

fun make_int :: "pyval \<Rightarrow> int" where
  \<comment> \<open>utils.make\_int: \<open>int(x)\<close>, and 0 on any exception\<close>
  "make_int (PInt n) = n"
| "make_int (PBool b) = (if b then 1 else 0)"
| "make_int (PStr s) = (case py_int s of None \<Rightarrow> 0 | Some n \<Rightarrow> n)"
| "make_int _ = 0"

subsection \<open>resolve\_ref\_id\<close>

text \<open>A dict is an association list in insertion order; \<open>d[k] = v\<close> is \<open>AList.update k v d\<close>.\<close>

type_synonym citation_ids = "(string \<times> (string \<times> string) list) list"

definition suffixed_label :: "string \<Rightarrow> nat \<Rightarrow> string" where
  "suffixed_label ref_str n =
     (let rfsplits = str_split ref_str '','' in
      if 1 < length rfsplits
      then rfsplits ! 0 @ ''_'' @ str_nat n @ '','' @ rfsplits ! 1
      else ref_str @ ''_'' @ str_nat n)"

definition nth_label :: "string \<Rightarrow> nat \<Rightarrow> string" where
  \<comment> \<open>lines 167 to 175, for a dict \<open>citation_ids[ref_str]\<close> of \<open>n\<close> entries: the test
     \<open>if citation_ids[ref_str]\<close> holds when the dict is not empty\<close>
  "nth_label ref_str n = (if 0 < n then suffixed_label ref_str n else ref_str)"

definition label_of :: "citation_ids \<Rightarrow> string \<Rightarrow> string \<Rightarrow> string option" where
  \<comment> \<open>\<open>citation_ids[ref_str][ref_corpus_id]\<close>, None where a key is missing\<close>
  "label_of citation_ids ref_str ref_corpus_id =
     (case map_of citation_ids ref_str of None \<Rightarrow> None | Some d \<Rightarrow> map_of d ref_corpus_id)"

definition resolve_ref_id :: "string \<Rightarrow> string \<Rightarrow> citation_ids \<Rightarrow> string \<times> citation_ids" where
  "resolve_ref_id ref_str ref_corpus_id citation_ids =
     (let citation_ids =
            (if map_of citation_ids ref_str = None
             then AList.update ref_str [] citation_ids else citation_ids);
          labels = (case map_of citation_ids ref_str of None \<Rightarrow> [] | Some d \<Rightarrow> d)
      in case map_of labels ref_corpus_id of
           None \<Rightarrow>
             (let ref_str_id = nth_label ref_str (length labels)
              in (ref_str_id,
                  AList.update ref_str (AList.update ref_corpus_id ref_str_id labels) citation_ids))
         | Some ref_str_id \<Rightarrow> (ref_str_id, citation_ids))"

definition labels_wf :: "citation_ids \<Rightarrow> bool" where
  \<comment> \<open>the shape of every map that resolve\_ref\_id builds from the empty one: under a base
     label, distinct corpus ids, the \<open>n\<close>-th of them with the \<open>n\<close>-th label\<close>
  "labels_wf citation_ids =
     (\<forall>ref_str d. map_of citation_ids ref_str = Some d \<longrightarrow>
        distinct (map fst d) \<and> map snd d = map (nth_label ref_str) [0 ..< length d])"

fun resolve_all :: "(string \<times> string) list \<Rightarrow> citation_ids \<Rightarrow> string list \<times> citation_ids" where
  \<comment> \<open>successive calls on one shared map, with the labels they return\<close>
  "resolve_all [] citation_ids = ([], citation_ids)"
| "resolve_all ((ref_str, ref_corpus_id) # calls) citation_ids =
     (let (l, citation_ids) = resolve_ref_id ref_str ref_corpus_id citation_ids;
          (ls, citation_ids) = resolve_all calls citation_ids
      in (l # ls, citation_ids))"

subsection \<open>pop\_ref\_data\<close>

definition split_snippets :: "string \<Rightarrow> string list" where
  \<comment> \<open>\<open>[fq.strip() for fq in fixed_quote.split("...")]\<close>\<close>
  "split_snippets fixed_quote = map py_strip (str_split fixed_quote ''...'')"

definition dict_get :: "(string \<times> pyval) list \<Rightarrow> string \<Rightarrow> pyval \<Rightarrow> pyval" where
  "dict_get d k dflt = (case map_of d k of None \<Rightarrow> dflt | Some v \<Rightarrow> v)"

definition pop_ref_data ::
  "string \<Rightarrow> string \<Rightarrow> string \<Rightarrow> (string \<times> pyval) list option \<Rightarrow> py_error + citation" where
  "pop_ref_data ref_str_id ref_corpus_id fixed_quote curr_paper_metadata =
     (let curr_ref = \<lparr> c_id = ref_str_id, snippets = split_snippets fixed_quote, score = None,
                       paper = \<lparr> corpus_id = ref_corpus_id, p_title = None, p_authors = None,
                                 p_year = None, p_venue = None, p_n_citations = None \<rparr> \<rparr>
      in case curr_paper_metadata of
           None \<Rightarrow> Inr curr_ref
         | Some m \<Rightarrow>
             if m = [] then Inr curr_ref
             else (case (map_of m ''title'', map_of m ''authors'', map_of m ''venue'',
                         map_of m ''citationCount'') of
                     (Some t, Some a, Some v, Some n) \<Rightarrow>
                       Inr (curr_ref \<lparr> score := Some (dict_get m ''relevance_judgement'' (PInt 0)),
                              paper := \<lparr> corpus_id = ref_corpus_id, p_title = Some t,
                                         p_authors = Some a,
                                         p_year = Some (make_int (dict_get m ''year'' (PInt 0))),
                                         p_venue = Some v, p_n_citations = Some n \<rparr> \<rparr>)
                   | _ \<Rightarrow> Inl KeyError))"

subsection \<open>get\_json\_summary\<close>

record quote_rec =
  quote :: string
  inline_citations :: "(string \<times> string) list"

datatype source = Main_pool | Inline_pool

definition dict_of :: "('k \<times> 'v) list \<Rightarrow> ('k \<times> 'v) list" where
  \<comment> \<open>a dict comprehension: later items overwrite the value of an equal key\<close>
  "dict_of kvs = foldl (\<lambda>d (k, v). AList.update k v d) [] kvs"

definition has_key :: "('k \<times> 'v) list \<Rightarrow> 'k \<Rightarrow> bool" where
  "has_key d k = (map_of d k \<noteq> None)"

definition first_field :: "string \<Rightarrow> string" where
  \<comment> \<open>\<open>s.split(" | ")[0]\<close>\<close>
  "first_field s = (case str_split s '' | '' of [] \<Rightarrow> [] | x # _ \<Rightarrow> x)"

definition key_to_norm_id :: "(string \<Rightarrow> string) \<Rightarrow> string \<Rightarrow> string" where
  "key_to_norm_id tr key = normalize_id tr (Some (first_field (slice_1_m1 key)))"

definition id_to_key :: "(string \<Rightarrow> string) \<Rightarrow> (string \<times> 'v) list \<Rightarrow> (string \<times> string) list" where
  \<comment> \<open>\<open>{key_to_norm_id(k): k for k in pool.keys()}\<close>\<close>
  "id_to_key tr pool = dict_of (map (\<lambda>k. (key_to_norm_id tr k, k)) (map fst pool))"

definition candidates :: "(string \<times> string) list \<Rightarrow> string \<Rightarrow> string list" where
  \<comment> \<open>\<open>[k for k in id_map.keys() if k.startswith(norm_ref_id)] if norm_ref_id else []\<close>\<close>
  "candidates id_map norm_ref_id =
     (if norm_ref_id \<noteq> [] then filter (\<lambda>k. startswith k norm_ref_id) (map fst id_map) else [])"

definition prefix_resolve ::
  "(string \<times> string) list \<Rightarrow> (string \<times> string) list \<Rightarrow> string \<Rightarrow> (string \<times> source) option" where
  \<comment> \<open>lines 289 to 297: the unique prefix match\<close>
  "prefix_resolve id_to_main_key id_to_inline_key norm_ref_id =
     (let main_candidates = candidates id_to_main_key norm_ref_id;
          inline_candidates = candidates id_to_inline_key norm_ref_id
      in if length main_candidates = 1
         then map_option (\<lambda>k. (k, Main_pool)) (map_of id_to_main_key (main_candidates ! 0))
         else if length inline_candidates = 1
         then map_option (\<lambda>k. (k, Inline_pool)) (map_of id_to_inline_key (inline_candidates ! 0))
         else None)"

definition resolve_ref ::
  "(string \<Rightarrow> string) \<Rightarrow> (string \<times> quote_rec) list \<Rightarrow> (string \<times> string) list \<Rightarrow>
   (string \<times> string) list \<Rightarrow> (string \<times> string) list \<Rightarrow> string \<Rightarrow> (string \<times> source) option" where
  \<comment> \<open>lines 267 to 297: the resolved key and its pool, for a transliterated token\<close>
  "resolve_ref tr summary_quotes inline_citation_quotes id_to_main_key id_to_inline_key ref =
     (if has_key summary_quotes ref \<or> has_key inline_citation_quotes ref
      then Some (ref, if has_key summary_quotes ref then Main_pool else Inline_pool)
      else
        (let ref_token = first_field (slice_1_m1 ref);
             norm_ref_id = normalize_id tr (Some ref_token)
         in case map_of id_to_main_key norm_ref_id of
              Some k \<Rightarrow> Some (k, Main_pool)
            | None \<Rightarrow>
                (case map_of id_to_inline_key norm_ref_id of
                   Some k \<Rightarrow> Some (k, Inline_pool)
                 | None \<Rightarrow> prefix_resolve id_to_main_key id_to_inline_key norm_ref_id)))"

definition fix_quote :: "string \<Rightarrow> string" where
  \<comment> \<open>lines 310 to 314; the typographic quotes U+201C and U+201D are written as their UTF-8
     bytes, which no ASCII text contains\<close>
  "fix_quote q =
     (let fixed_quote = py_strip q;
          fixed_quote = str_replace fixed_quote [CHR 0xE2, CHR 0x80, CHR 0x9C] [CHR 0x22];
          fixed_quote = str_replace fixed_quote [CHR 0xE2, CHR 0x80, CHR 0x9D] [CHR 0x22];
          fixed_quote = (if startswith fixed_quote ''...'' then drop 3 fixed_quote else fixed_quote);
          fixed_quote = (if endswith fixed_quote ''...''
                         then take (length fixed_quote - 3) fixed_quote else fixed_quote)
      in fixed_quote)"

definition paper_tag :: "string \<Rightarrow> string \<Rightarrow> string" where
  \<comment> \<open>\<open>text_ref_format.format(corpus_id=..., ref_str=...)\<close>\<close>
  "paper_tag cid ref_str =
     ''<Paper corpusId='' @ [CHR 0x22] @ cid @ [CHR 0x22] @ '' arxivId='' @ [CHR 0x22] @ cid @
     [CHR 0x22] @ '' paperTitle='' @ [CHR 0x22] @ ref_str @ [CHR 0x22] @
     '' isShortName></Paper>''"

record loop_state =
  ls_text :: string
  ls_refs :: "citation list"
  ls_done :: "string list"
  ls_cids :: citation_ids

definition process_ref ::
  "(string \<Rightarrow> string) \<Rightarrow> (string \<times> quote_rec) list \<Rightarrow> (string \<times> string) list \<Rightarrow>
   (string \<times> string) list \<Rightarrow> (string \<times> string) list \<Rightarrow> (string \<times> (string \<times> pyval) list) list \<Rightarrow>
   bool \<Rightarrow> loop_state \<Rightarrow> string \<Rightarrow> py_error + loop_state" where
  \<comment> \<open>one round of \<open>for ref in references\<close>, lines 266 to 328\<close>
  "process_ref tr summary_quotes inline_citation_quotes id_to_main_key id_to_inline_key
       paper_metadata inline_tags st raw_ref =
     (let ref = tr raw_ref;
          unresolved = Inr (st \<lparr> ls_text := str_replace (ls_text st) ref [] \<rparr>)
      in case resolve_ref tr summary_quotes inline_citation_quotes id_to_main_key
                id_to_inline_key ref of
           None \<Rightarrow> unresolved
         | Some (resolved_key, resolved_source) \<Rightarrow>
             if resolved_key = [] then unresolved
             else
               (let ref_parts = str_split (slice_1_m1 resolved_key) '' | '' in
                if length ref_parts < 3 then Inl IndexError
                else
                  (let ref_corpus_id = ref_parts ! 0;
                       ref_str = str_replace
                         (''('' @ ref_parts ! 1 @ '', '' @
                          str_int (make_int (PStr (ref_parts ! 2))) @ '')'') ''NULL, '' [];
                       norm_done_id = normalize_id tr (Some ref_corpus_id)
                   in if norm_done_id \<in> set (ls_done st) then Inr st
                      else
                        (case (case resolved_source of
                                 Main_pool \<Rightarrow> map_option quote (map_of summary_quotes resolved_key)
                               | Inline_pool \<Rightarrow> map_of inline_citation_quotes resolved_key) of
                           None \<Rightarrow> Inl KeyError
                         | Some q \<Rightarrow>
                             (let fixed_quote = fix_quote q;
                                  (ref_str_id, cids) =
                                     resolve_ref_id ref_str ref_corpus_id (ls_cids st)
                              in case pop_ref_data ref_str_id ref_corpus_id fixed_quote
                                        (map_of paper_metadata ref_corpus_id) of
                                   Inl e \<Rightarrow> Inl e
                                 | Inr ref_data \<Rightarrow>
                                     Inr \<lparr> ls_text = str_replace (ls_text st) ref
                                             (if inline_tags
                                              then paper_tag (corpus_id (paper ref_data))
                                                     (c_id ref_data)
                                              else c_id ref_data),
                                           ls_refs = ls_refs st @ [ref_data],
                                           ls_done = norm_done_id # ls_done st,
                                           ls_cids = cids \<rparr>)))))"

fun process_refs ::
  "(loop_state \<Rightarrow> string \<Rightarrow> py_error + loop_state) \<Rightarrow> loop_state \<Rightarrow> string list \<Rightarrow>
   py_error + loop_state" where
  "process_refs step st [] = Inr st"
| "process_refs step st (ref # refs) =
     (case step st ref of Inl e \<Rightarrow> Inl e | Inr st' \<Rightarrow> process_refs step st' refs)"

definition is_nonspace :: "char \<Rightarrow> bool" where
  "is_nonspace c = (\<not> is_space c)"

definition is_name_char :: "char \<Rightarrow> bool" where
  \<comment> \<open>\<open>[A-Za-z. ]\<close>\<close>
  "is_name_char c = (is_alpha c \<or> c = CHR ''.'' \<or> c = CHR '' '')"

definition composite_rx :: rx where
  \<comment> \<open>group 1 of the pattern: \<open>\S+ \| [A-Za-z. ]+ \| \d+ \| Citations: \d+\<close>\<close>
  "composite_rx =
     Seq (Plus is_nonspace) (Seq (Str False '' | '') (Seq (Plus is_name_char)
       (Seq (Str False '' | '') (Seq (Plus is_digit) (Seq (Str False '' | Citations: '')
         (Plus is_digit))))))"

definition repair_match :: "string \<Rightarrow> nat \<Rightarrow> (nat \<times> string) option" where
  \<comment> \<open>a match of \<open>(?:; )?(group 1)\<close> at \<open>i\<close>, with its replacement \<open>] [\1\<close>\<close>
  "repair_match t i =
     (case concat (map (\<lambda>g. map (Pair g) (matches composite_rx t g))
                       (matches (Opt (Str False ''; '')) t i)) of
        [] \<Rightarrow> None
      | (g, e) # _ \<Rightarrow> Some (e, ''] ['' @ substring t g e))"

definition repair_citations :: "string \<Rightarrow> string" where
  \<comment> \<open>lines 255 to 257\<close>
  "repair_citations text = sub_from repair_match text 0"

definition bracket_rx :: rx where
  \<comment> \<open>\<open>\[.*?\]\<close>; the dot matches every character but the newline\<close>
  "bracket_rx = Seq (Str False ''['') (Seq (LazyStar (\<lambda>c. c \<noteq> CHR 0x0A)) (Str False '']''))"

definition spaces_rx :: rx where
  "spaces_rx = Plus (\<lambda>c. c = CHR '' '')"

definition tldr_suffix :: "nat \<Rightarrow> string" where
  "tldr_suffix n =
     (if 0 < n then (if 1 < n then '' ('' @ str_nat n @ '' sources)'' else '' (1 source)'')
      else '' (LLM Memory)'')"

definition process_section ::
  "(string \<Rightarrow> string) \<Rightarrow> string \<Rightarrow> (string \<times> quote_rec) list \<Rightarrow> (string \<times> string) list \<Rightarrow>
   (string \<times> string) list \<Rightarrow> (string \<times> string) list \<Rightarrow> (string \<times> (string \<times> pyval) list) list \<Rightarrow>
   bool \<Rightarrow> citation_ids \<Rightarrow> string \<Rightarrow> py_error + (sec \<times> citation_ids)" where
  \<comment> \<open>the body of \<open>for sec in summary_sections\<close>, lines 251 to 339\<close>
  "process_section tr llm_ref_format summary_quotes inline_citation_quotes id_to_main_key
       id_to_inline_key paper_metadata inline_tags citation_ids sec =
     (case get_section_text sec of
        Inl e \<Rightarrow> Inl e
      | Inr curr_section \<Rightarrow>
          (let text = repair_citations (sec_text curr_section);
               text = re_sub (Str False ''[]'') [] text;
               references = re_findall bracket_rx text;
               st = \<lparr> ls_text = str_replace text ''[LLM MEMORY | 2024]'' llm_ref_format,
                      ls_refs = [], ls_done = [], ls_cids = citation_ids \<rparr>
           in case process_refs
                     (process_ref tr summary_quotes inline_citation_quotes id_to_main_key
                        id_to_inline_key paper_metadata inline_tags) st references of
                Inl e \<Rightarrow> Inl e
              | Inr st \<Rightarrow>
                  Inr (curr_section
                         \<lparr> sec_text := re_sub spaces_rx '' '' (ls_text st),
                           sec_citations := ls_refs st,
                           sec_tldr :=
                             (if sec_tldr curr_section \<noteq> []
                              then sec_tldr curr_section @ tldr_suffix (length (ls_refs st))
                              else sec_tldr curr_section) \<rparr>,
                       ls_cids st)))"

fun process_sections ::
  "(citation_ids \<Rightarrow> string \<Rightarrow> py_error + (sec \<times> citation_ids)) \<Rightarrow> citation_ids \<Rightarrow>
   string list \<Rightarrow> py_error + (sec list \<times> citation_ids)" where
  "process_sections step citation_ids [] = Inr ([], citation_ids)"
| "process_sections step citation_ids (s # ss) =
     (case step citation_ids s of
        Inl e \<Rightarrow> Inl e
      | Inr (curr_section, citation_ids) \<Rightarrow>
          (case process_sections step citation_ids ss of
             Inl e \<Rightarrow> Inl e
           | Inr (sections, citation_ids) \<Rightarrow> Inr (curr_section # sections, citation_ids)))"

definition get_json_summary ::
  "(string \<Rightarrow> string) \<Rightarrow> string \<Rightarrow> string list \<Rightarrow> (string \<times> quote_rec) list \<Rightarrow>
   (string \<times> (string \<times> pyval) list) list \<Rightarrow> citation_ids \<Rightarrow> bool \<Rightarrow>
   py_error + (sec list \<times> citation_ids)" where
  \<comment> \<open>the result is the section list together with the updated \<open>citation_ids\<close>\<close>
  "get_json_summary tr llm_model summary_sections summary_quotes paper_metadata citation_ids
       inline_tags =
     (case str_split1 llm_model ''/'' of
        name # version # _ \<Rightarrow>
          (let llm_ref_format = ''<Model name='' @ [CHR 0x22] @ capitalize name @ [CHR 0x22] @
                 '' version='' @ [CHR 0x22] @ version @ [CHR 0x22] @ ''>'';
               summary_quotes = dict_of (map (\<lambda>(k, v). (tr k, v)) summary_quotes);
               inline_citation_quotes =
                 dict_of (concat (map (\<lambda>(k, incite). map (\<lambda>(k, v). (tr k, v))
                                          (inline_citations incite)) summary_quotes));
               id_to_main_key = id_to_key tr summary_quotes;
               id_to_inline_key = id_to_key tr inline_citation_quotes
           in process_sections
                (process_section tr llm_ref_format summary_quotes inline_citation_quotes
                   id_to_main_key id_to_inline_key paper_metadata inline_tags)
                citation_ids summary_sections)
      | _ \<Rightarrow> Inl IndexError)"

text \<open>The transliteration on texts that hold ASCII characters and the letter u with
  diaeresis (U+00FC, written as its UTF-8 bytes): \<open>anyascii\<close> leaves the ASCII characters as
  they are and writes \<open>u\<close> for the letter.\<close>

definition anyascii_umlaut :: "string \<Rightarrow> string" where
  "anyascii_umlaut s = str_replace s [CHR 0xC3, CHR 0xBC] ''u''"

subsection \<open>safe\_json\_parse\<close>

text \<open>
  The argument is either an object with a \<open>content\<close> attribute or a plain value. \<open>str\<close>,
  \<open>json.loads\<close> and \<open>ast.literal_eval\<close> belong to the standard library and are parameters:
  \<open>to_str\<close>, and two parsers that return None where the library raises.
\<close>

datatype raw_output = WithContent pyval | Plain pyval

definition strip_code_fences :: "string \<Rightarrow> string" where
  "strip_code_fences text0 =
     (let text = py_strip text0;
          fence = [CHR 0x60, CHR 0x60, CHR 0x60]
      in if startswith text fence \<and> endswith text fence then
           (let inner = py_strip (take (length text - 6) (drop 3 text));
                line = takeWhile (\<lambda>c. c \<noteq> CHR 0x0A) inner
            in if CHR 0x0A \<in> set inner \<and>
                  str_lower (py_strip line) \<in> set [''json'', ''javascript'', ''ts'', ''python'']
               then py_strip (drop (Suc (length line)) inner)
               else inner)
         else text)"

fun slice_loop :: "string \<Rightarrow> string \<Rightarrow> nat \<Rightarrow> char list \<Rightarrow> nat option \<Rightarrow> string" where
  \<comment> \<open>the loop of extract\_json\_slice: the rest of the text, the index, the stack, \<open>start\<close>\<close>
  "slice_loop text [] i stack start = text"
| "slice_loop text (ch # rest) i stack start =
     (if ch \<in> set ''[{'' then
        slice_loop text rest (Suc i) (stack @ [ch]) (if stack = [] then Some i else start)
      else if ch \<in> set '']}'' then
        (if stack \<noteq> [] then
           (case (butlast stack, start) of
              ([], Some s) \<Rightarrow> take (Suc i - s) (drop s text)
            | (stack', _) \<Rightarrow> slice_loop text rest (Suc i) stack' start)
         else slice_loop text rest (Suc i) stack start)
      else slice_loop text rest (Suc i) stack start)"

definition extract_json_slice :: "string \<Rightarrow> string" where
  "extract_json_slice text = slice_loop text text 0 [] None"

definition parse_text ::
  "(string \<Rightarrow> pyval option) \<Rightarrow> (string \<Rightarrow> pyval option) \<Rightarrow> string \<Rightarrow> py_error + pyval" where
  \<comment> \<open>lines 78 to 109\<close>
  "parse_text loads literal_eval raw_text =
     (let text = strip_code_fences raw_text;
          candidate = extract_json_slice text
      in case loads candidate of
           Some v \<Rightarrow> Inr v
         | None \<Rightarrow>
             (case (if CHR 0x27 \<in> set candidate \<and> CHR 0x22 \<notin> set candidate
                    then loads (str_replace candidate [CHR 0x27] [CHR 0x22]) else None) of
                Some v \<Rightarrow> Inr v
              | None \<Rightarrow>
                  (case literal_eval candidate of
                     Some v \<Rightarrow> Inr v
                   | None \<Rightarrow>
                       (case loads text of
                          Some v \<Rightarrow> Inr v
                        | None \<Rightarrow> Inl ValueError))))"

definition coerce :: "(pyval \<Rightarrow> string) \<Rightarrow> raw_output \<Rightarrow> pyval" where
  \<comment> \<open>lines 30 to 33\<close>
  "coerce to_str raw =
     (case raw of
        WithContent c \<Rightarrow> c
      | Plain (PStr s) \<Rightarrow> PStr s
      | Plain v \<Rightarrow> PStr (to_str v))"

definition safe_json_parse ::
  "(pyval \<Rightarrow> string) \<Rightarrow> (string \<Rightarrow> pyval option) \<Rightarrow> (string \<Rightarrow> pyval option) \<Rightarrow> raw_output \<Rightarrow>
   py_error + pyval" where
  "safe_json_parse to_str loads literal_eval raw =
     (case coerce to_str raw of
        PNone \<Rightarrow> Inl ValueError
      | PDict d \<Rightarrow> Inr (PDict d)
      | PList l \<Rightarrow> Inr (PList l)
      | PStr s \<Rightarrow> parse_text loads literal_eval s
      | v \<Rightarrow> parse_text loads literal_eval (to_str v))"

section \<open>Properties\<close>

subsection \<open>Stripping\<close>

lemma rstrip_chars_last: "rstrip_chars p s \<noteq> [] \<Longrightarrow> \<not> p (last (rstrip_chars p s))"
  unfolding rstrip_chars_def
  by (metis hd_dropWhile last_rev rev_is_Nil_conv)

lemma rstrip_chars_fix: "s = [] \<or> \<not> p (last s) \<Longrightarrow> rstrip_chars p s = s"
  unfolding rstrip_chars_def
  by (cases "rev s") (auto simp: last_rev)

lemma lstrip_chars_fix: "s = [] \<or> \<not> p (hd s) \<Longrightarrow> lstrip_chars p s = s"
  unfolding lstrip_chars_def by (cases s) auto

lemma lstrip_chars_hd: "lstrip_chars p s \<noteq> [] \<Longrightarrow> \<not> p (hd (lstrip_chars p s))"
  unfolding lstrip_chars_def by (simp add: hd_dropWhile)

lemma lstrip_chars_last: "lstrip_chars p s \<noteq> [] \<Longrightarrow> last (lstrip_chars p s) = last s"
  unfolding lstrip_chars_def
  by (metis last_appendR takeWhile_dropWhile_id)

lemma lstrip_chars_Nil: "lstrip_chars p [] = []"
  by (simp add: lstrip_chars_def)

lemma strip_chars_fix:
  "s = [] \<or> (\<not> p (hd s) \<and> \<not> p (last s)) \<Longrightarrow> strip_chars p s = s"
  unfolding strip_chars_def by (auto simp: lstrip_chars_fix rstrip_chars_fix)

lemma strip_prefixes_fix:
  "\<forall>p \<in> set ps. \<not> startswith r p \<Longrightarrow> foldl strip_prefix r ps = r"
  by (induction ps) (auto simp: strip_prefix_def)




subsection \<open>The identifier normalizer\<close>

lemma normalize_id_shape:
  assumes "normalize_id tr (Some x) = r" and "r \<noteq> []"
  shows "\<not> is_trail_punct (last r) \<and> hd r \<noteq> CHR ''[''"
proof -
  define s where
    "s = rstrip_chars is_trail_punct (foldl strip_prefix (py_strip (tr x)) id_prefixes)"
  have r: "r = lstrip_chars (\<lambda>c. c = CHR ''['') s"
    using assms(1) by (simp add: s_def)
  have "s \<noteq> []" using r assms(2) lstrip_chars_Nil by auto
  then have "\<not> is_trail_punct (last s)"
    unfolding s_def by (rule rstrip_chars_last)
  moreover have "last r = last s"
    using r assms(2) lstrip_chars_last by metis
  moreover have "hd r \<noteq> CHR ''[''"
    using r assms(2) lstrip_chars_hd[of "\<lambda>c. c = CHR ''[''" s] by simp
  ultimately show ?thesis by simp
qed

lemma normalize_id_dotted: "normalize_id id (Some ''[12.3],'') = ''12.3''"
  by (simp add: py_strip_def strip_chars_def rstrip_chars_def lstrip_chars_def is_space_def
      id_prefixes_def strip_prefix_def startswith_def is_trail_punct_def)

text \<open>
  C4, as stated: \<open>normalize(normalize(x)) = normalize(x)\<close> for every string. It fails: the
  loop over the labels removes each label at most once, so of a doubled label one copy is
  left, and the second application removes it.
\<close>

theorem normalize_id_not_idempotent:
  "normalize_id id (Some (normalize_id id (Some ''arXiv:arXiv:1''))) \<noteq>
   normalize_id id (Some ''arXiv:arXiv:1'')"
  by (simp add: py_strip_def strip_chars_def rstrip_chars_def lstrip_chars_def is_space_def
      id_prefixes_def strip_prefix_def startswith_def is_trail_punct_def)

text \<open>
  C4, amended: a second application of the normalizer changes nothing whenever the first
  result \<open>r\<close> is left alone by the transliteration, has no white space at either end and
  starts with none of the four labels. The trailing punctuation and the leading bracket need
  no condition: no result of the normalizer ends with one or starts with the other.
\<close>

theorem normalize_id_idempotent_on_clean:
  assumes r: "r = normalize_id tr (Some x)"
    and tr: "tr r = r"
    and ws: "r = [] \<or> (\<not> is_space (hd r) \<and> \<not> is_space (last r))"
    and lab: "\<forall>p \<in> set id_prefixes. \<not> startswith r p"
  shows "normalize_id tr (Some r) = r"
proof -
  have shape: "r = [] \<or> (\<not> is_trail_punct (last r) \<and> hd r \<noteq> CHR ''['')"
    using normalize_id_shape[OF r[symmetric]] by blast
  have 1: "py_strip (tr r) = r"
    using ws tr by (simp add: py_strip_def strip_chars_fix)
  have 2: "foldl strip_prefix r id_prefixes = r"
    using lab by (rule strip_prefixes_fix)
  have 3: "rstrip_chars is_trail_punct r = r"
    using shape by (auto simp: rstrip_chars_fix)
  have 4: "lstrip_chars (\<lambda>c. c = CHR ''['') r = r"
    using shape by (auto simp: lstrip_chars_fix)
  show ?thesis by (simp add: 1 2 3 4)
qed

theorem normalize_id_idempotent_on_clean_witness:
  "normalize_id id (Some (normalize_id id (Some ''[12.3],''))) =
   normalize_id id (Some ''[12.3],'')"
proof -
  have a: "''12.3'' = normalize_id id (Some ''[12.3],'')"
    by (rule normalize_id_dotted[symmetric])
  have b: "id ''12.3'' = ''12.3''" by simp
  have c: "''12.3'' = [] \<or> (\<not> is_space (hd ''12.3'') \<and> \<not> is_space (last ''12.3''))"
    by (simp add: is_space_def)
  have d: "\<forall>p \<in> set id_prefixes. \<not> startswith ''12.3'' p"
    by (simp add: id_prefixes_def startswith_def)
  from normalize_id_idempotent_on_clean[OF a b c d] show ?thesis
    by (simp only: normalize_id_dotted)
qed

subsection \<open>The model name\<close>

lemma split_once_absent:
  "c \<notin> set s \<Longrightarrow> split_once_from [c] acc s = [rev acc @ s]"
  by (induction s arbitrary: acc) (auto simp: startswith_def)

text \<open>
  C10: a model name without the separator \<open>/\<close> makes the assembler raise IndexError, whatever
  the sections, the pools and the other arguments are: \<open>llm_name_parts[1]\<close> is read before
  the loop over the sections starts.
\<close>

theorem get_json_summary_needs_provider:
  assumes "CHR ''/'' \<notin> set llm_model"
  shows "get_json_summary tr llm_model summary_sections summary_quotes paper_metadata
           citation_ids inline_tags = Inl IndexError"
  using assms by (simp add: get_json_summary_def str_split1_def split_once_absent)

theorem get_json_summary_needs_provider_witness:
  "get_json_summary id ''gpt4'' [''Intro TLDR: a''] [] [] [] False = Inl IndexError"
  using get_json_summary_needs_provider
          [of "''gpt4''" id "[''Intro TLDR: a'']" "[]" "[]" "[]" False]
  by simp

subsection \<open>The decoder\<close>

text \<open>
  C9 says that a dict or a list is returned as it is. The code converts every argument that
  is not a string (and has no \<open>content\<close>) to its text first, so the test for a dict or a
  list never sees one: a structured argument is parsed back from \<open>str(raw_output)\<close>.
\<close>

theorem safe_json_parse_structured_as_text:
  "safe_json_parse to_str loads literal_eval (Plain (PDict d)) =
     parse_text loads literal_eval (to_str (PDict d)) \<and>
   safe_json_parse to_str loads literal_eval (Plain (PList l)) =
     parse_text loads literal_eval (to_str (PList l))"
  by (simp add: safe_json_parse_def coerce_def)

subsection \<open>The repair of adjacent citations\<close>

text \<open>
  C5 says that a fragment inside its own pair of brackets is left unchanged. In the code
  \<open>\S+\<close> takes the opening bracket into the match, and the fragment gets a \<open>] [\<close> in front.
\<close>

theorem repair_citations_bracketed:
  "repair_citations ''[123 | Smith | 2020 | Citations: 5]'' =
   ''] ['' @ ''[123 | Smith | 2020 | Citations: 5]''"
  by code_simp

subsection \<open>Snippets\<close>





subsection \<open>A corpus id met twice in a section\<close>

text \<open>
  C3 says that every token resolving to a corpus id already met in the section is still
  replaced in the body. In the code the replacement sits inside the test
  \<open>norm_done_id not in refs_done\<close>: a later token with another spelling of the same id is not
  added to the citations, and it is not replaced either. Here \<open>[123]\<close> and \<open>[arXiv:123]\<close>
  both resolve to the key of corpus id 123, and the second stays in the text.
\<close>

theorem get_json_summary_second_spelling_kept:
  "get_json_summary id ''openai/gpt-4''
     [''Intro TLDR: sum'' @ [CHR 0x0A] @ ''See [123] and [arXiv:123].'']
     [(''[123 | Smith | 2020 | Citations: 5]'',
       \<lparr> quote = ''relevant text'', inline_citations = [] \<rparr>)]
     [] [] False =
   Inr ([\<lparr> sec_title = ''Intro'', sec_tldr = ''sum (1 source)'',
           sec_text = ''See (Smith, 2020) and [arXiv:123].'',
           sec_citations =
             [\<lparr> c_id = ''(Smith, 2020)'', snippets = [''relevant text''], score = None,
                 paper = \<lparr> corpus_id = ''123'', p_title = None, p_authors = None,
                           p_year = None, p_venue = None, p_n_citations = None \<rparr> \<rparr>] \<rparr>],
        [(''(Smith, 2020)'', [(''123'', ''(Smith, 2020)'')])])"
  by code_simp

subsection \<open>Prefix resolution\<close>

lemma distinct_singleton_set: "distinct l \<Longrightarrow> set l = {c} \<Longrightarrow> l = [c]"
proof (cases l)
  case Nil
  assume "set l = {c}"
  with Nil show ?thesis by simp
next
  case (Cons x l')
  assume d: "distinct l" and s: "set l = {c}"
  from s Cons have x: "x = c" by auto
  from d Cons x have "c \<notin> set l'" by simp
  moreover from s Cons have "set l' \<subseteq> {c}" by auto
  ultimately have "l' = []" by (cases l') auto
  then show ?thesis using Cons x by simp
qed

lemma filter_single_iff:
  assumes "distinct xs"
  shows "(length (filter P xs) = 1 \<and> filter P xs ! 0 = c) \<longleftrightarrow>
         (c \<in> set xs \<and> P c \<and> (\<forall>c' \<in> set xs. P c' \<longrightarrow> c' = c))"
proof
  assume l: "length (filter P xs) = 1 \<and> filter P xs ! 0 = c"
  then have f: "filter P xs = [c]"
    by (cases "filter P xs") auto
  then have "set (filter P xs) = {c}" by simp
  then show "c \<in> set xs \<and> P c \<and> (\<forall>c' \<in> set xs. P c' \<longrightarrow> c' = c)" by auto
next
  assume r: "c \<in> set xs \<and> P c \<and> (\<forall>c' \<in> set xs. P c' \<longrightarrow> c' = c)"
  then have "set (filter P xs) = {c}" by auto
  moreover have "distinct (filter P xs)" using assms by simp
  ultimately have "filter P xs = [c]" by (rule distinct_singleton_set[rotated])
  then show "length (filter P xs) = 1 \<and> filter P xs ! 0 = c" by simp
qed

lemma candidates_single_iff:
  assumes "distinct (map fst m)"
  shows "(length (candidates m n) = 1 \<and> candidates m n ! 0 = c) \<longleftrightarrow>
         (n \<noteq> [] \<and> c \<in> fst ` set m \<and> startswith c n \<and>
          (\<forall>c' \<in> fst ` set m. startswith c' n \<longrightarrow> c' = c))"
proof (cases "n = []")
  case True
  then show ?thesis by (simp add: candidates_def)
next
  case False
  then show ?thesis
    using filter_single_iff[OF assms, of "\<lambda>k. startswith k n" c]
    by (simp add: candidates_def)
qed


lemma candidates_one:
  assumes "distinct (map fst m)"
  shows "length (candidates m n) = 1 \<longleftrightarrow>
         (n \<noteq> [] \<and> (\<exists>c \<in> fst ` set m. startswith c n \<and>
            (\<forall>c' \<in> fst ` set m. startswith c' n \<longrightarrow> c' = c)))"
proof
  assume l: "length (candidates m n) = 1"
  define c where "c = candidates m n ! 0"
  from candidates_single_iff[OF assms, of n c] l
  have "n \<noteq> []" and "c \<in> fst ` set m"
    and "startswith c n \<and> (\<forall>c' \<in> fst ` set m. startswith c' n \<longrightarrow> c' = c)"
    unfolding c_def by simp_all
  then show "n \<noteq> [] \<and> (\<exists>c \<in> fst ` set m. startswith c n \<and>
            (\<forall>c' \<in> fst ` set m. startswith c' n \<longrightarrow> c' = c))"
    by - (rule conjI, assumption, rule bexI[where x = c], assumption+)
next
  assume r: "n \<noteq> [] \<and> (\<exists>c \<in> fst ` set m. startswith c n \<and>
            (\<forall>c' \<in> fst ` set m. startswith c' n \<longrightarrow> c' = c))"
  then obtain c where c: "c \<in> fst ` set m" "startswith c n"
    "\<forall>c' \<in> fst ` set m. startswith c' n \<longrightarrow> c' = c"
    by (elim conjE bexE)
  from r have n: "n \<noteq> []" by (rule conjunct1)
  have "length (candidates m n) = 1 \<and> candidates m n ! 0 = c"
    unfolding candidates_single_iff[OF assms] using n c by (intro conjI)
  then show "length (candidates m n) = 1" by (rule conjunct1)
qed

lemma candidates_the:
  assumes "distinct (map fst m)" and "n \<noteq> []" and "c \<in> fst ` set m" and "startswith c n"
    and "\<forall>c' \<in> fst ` set m. startswith c' n \<longrightarrow> c' = c"
  shows "candidates m n ! 0 = c"
proof -
  have "length (candidates m n) = 1 \<and> candidates m n ! 0 = c"
    unfolding candidates_single_iff[OF assms(1)] using assms(2-5) by (intro conjI)
  then show ?thesis by (rule conjunct2)
qed

lemma map_of_key: "c \<in> fst ` set m \<Longrightarrow> \<exists>k. map_of m c = Some k"
  by (metis domD dom_map_of_conv_image_fst)

lemma map_of_is_key: "map_of m c = Some k \<Longrightarrow> c \<in> fst ` set m"
  by (metis domI dom_map_of_conv_image_fst)


lemma foldl_update_distinct:
  "distinct (map fst d) \<Longrightarrow>
   distinct (map fst (foldl (\<lambda>d (k, v). AList.update k v d) d kvs))"
proof (induction kvs arbitrary: d)
  case Nil
  then show ?case by simp
next
  case (Cons kv kvs)
  obtain k v where kv: "kv = (k, v)" by (cases kv)
  from Cons.prems have "distinct (map fst (AList.update k v d))" by (rule distinct_update)
  from Cons.IH[OF this] show ?case by (simp add: kv)
qed

lemma id_to_key_distinct: "distinct (map fst (id_to_key tr pool))"
  unfolding id_to_key_def dict_of_def by (rule foldl_update_distinct) simp

text \<open>
  C2: for maps with distinct keys (every dict, and so the two id maps that get\_json\_summary
  builds), the prefix stage resolves a token to the main
  pool exactly when the normalized token is not empty and exactly one key of the main map
  starts with it, to the inline pool exactly when the main map has no such unique key and the
  inline map has one, and leaves it unresolved in every other case: with no candidate or
  with several in a pool, that pool picks none.
\<close>

theorem prefix_resolve_unique:
  assumes dm: "distinct (map fst id_to_main_key)"
    and di: "distinct (map fst id_to_inline_key)"
  shows
    "(prefix_resolve id_to_main_key id_to_inline_key n = Some (k, Main_pool) \<longleftrightarrow>
        n \<noteq> [] \<and>
        (\<exists>c. map_of id_to_main_key c = Some k \<and> startswith c n \<and>
             (\<forall>c' \<in> fst ` set id_to_main_key. startswith c' n \<longrightarrow> c' = c))) \<and>
     (prefix_resolve id_to_main_key id_to_inline_key n = Some (k, Inline_pool) \<longleftrightarrow>
        n \<noteq> [] \<and>
        \<not> (\<exists>c \<in> fst ` set id_to_main_key. startswith c n \<and>
             (\<forall>c' \<in> fst ` set id_to_main_key. startswith c' n \<longrightarrow> c' = c)) \<and>
        (\<exists>c. map_of id_to_inline_key c = Some k \<and> startswith c n \<and>
             (\<forall>c' \<in> fst ` set id_to_inline_key. startswith c' n \<longrightarrow> c' = c))) \<and>
     (prefix_resolve id_to_main_key id_to_inline_key n = None \<longleftrightarrow>
        n = [] \<or>
        (\<not> (\<exists>c \<in> fst ` set id_to_main_key. startswith c n \<and>
             (\<forall>c' \<in> fst ` set id_to_main_key. startswith c' n \<longrightarrow> c' = c)) \<and>
         \<not> (\<exists>c \<in> fst ` set id_to_inline_key. startswith c n \<and>
             (\<forall>c' \<in> fst ` set id_to_inline_key. startswith c' n \<longrightarrow> c' = c))))"
proof -
  define M where "M = id_to_main_key"
  define I where "I = id_to_inline_key"
  define U where "U = (\<lambda>(m :: (string \<times> string) list) c. startswith c n \<and>
                 (\<forall>c' \<in> fst ` set m. startswith c' n \<longrightarrow> c' = c))"
  define Bm where "Bm \<longleftrightarrow> (\<exists>c \<in> fst ` set M. U M c)"
  define Bi where "Bi \<longleftrightarrow> (\<exists>c \<in> fst ` set I. U I c)"
  define Am where "Am \<longleftrightarrow> (\<exists>c. map_of M c = Some k \<and> U M c)"
  define Ai where "Ai \<longleftrightarrow> (\<exists>c. map_of I c = Some k \<and> U I c)"
  define R where "R = prefix_resolve M I n"
  define Lm where "Lm \<longleftrightarrow> length (candidates M n) = 1"
  define Li where "Li \<longleftrightarrow> length (candidates I n) = 1"
  have one_m: "Lm \<longleftrightarrow> n \<noteq> [] \<and> Bm"
    unfolding Lm_def Bm_def U_def M_def by (rule candidates_one[OF dm])
  have one_i: "Li \<longleftrightarrow> n \<noteq> [] \<and> Bi"
    unfolding Li_def Bi_def U_def I_def by (rule candidates_one[OF di])
  have key: "\<And>m. distinct (map fst m) \<Longrightarrow> length (candidates m n) = 1 \<Longrightarrow>
      \<exists>k0. map_of m (candidates m n ! 0) = Some k0 \<and>
           ((\<exists>c. map_of m c = Some k \<and> U m c) \<longleftrightarrow> k = k0)"
  proof -
    fix m :: "(string \<times> string) list"
    assume d: "distinct (map fst m)" and l: "length (candidates m n) = 1"
    define c where "c = candidates m n ! 0"
    from candidates_single_iff[OF d, of n c] l
    have c: "c \<in> fst ` set m" "startswith c n"
      "\<forall>c' \<in> fst ` set m. startswith c' n \<longrightarrow> c' = c"
      unfolding c_def by simp_all
    from map_of_key[OF c(1)] obtain k0 where k0: "map_of m c = Some k0" ..
    have u: "U m c" unfolding U_def using c(2,3) by (rule conjI)
    have "(\<exists>c. map_of m c = Some k \<and> U m c) \<longleftrightarrow> k = k0"
    proof
      assume "\<exists>c. map_of m c = Some k \<and> U m c"
      then obtain c' where a: "map_of m c' = Some k" and b: "U m c'" by blast
      from b have "startswith c' n" unfolding U_def by (rule conjunct1)
      with c(3) map_of_is_key[OF a] have "c' = c" by blast
      with a k0 show "k = k0" by simp
    next
      assume "k = k0"
      with k0 u show "\<exists>c. map_of m c = Some k \<and> U m c" by blast
    qed
    with k0 show "\<exists>k0. map_of m (candidates m n ! 0) = Some k0 \<and>
           ((\<exists>c. map_of m c = Some k \<and> U m c) \<longleftrightarrow> k = k0)"
      unfolding c_def by blast
  qed
  have lift: "\<And>m. \<exists>c. map_of m c = Some k \<and> U m c \<Longrightarrow> \<exists>c \<in> fst ` set m. U m c"
  proof -
    fix m assume "\<exists>c. map_of m c = Some k \<and> U m c"
    then obtain c where a: "map_of m c = Some k" and b: "U m c" by blast
    from map_of_is_key[OF a] b show "\<exists>c \<in> fst ` set m. U m c" by (rule bexI[rotated])
  qed
  have lift_m: "Am \<Longrightarrow> Bm" unfolding Am_def Bm_def by (rule lift)
  have lift_i: "Ai \<Longrightarrow> Bi" unfolding Ai_def Bi_def by (rule lift)
  have R_eq: "R = (if Lm then map_option (\<lambda>k. (k, Main_pool)) (map_of M (candidates M n ! 0))
                   else if Li then map_option (\<lambda>k. (k, Inline_pool)) (map_of I (candidates I n ! 0))
                   else None)"
    unfolding R_def Lm_def Li_def prefix_resolve_def Let_def ..
  have goal:
    "(R = Some (k, Main_pool) \<longleftrightarrow> n \<noteq> [] \<and> Am) \<and>
     (R = Some (k, Inline_pool) \<longleftrightarrow> n \<noteq> [] \<and> \<not> Bm \<and> Ai) \<and>
     (R = None \<longleftrightarrow> n = [] \<or> (\<not> Bm \<and> \<not> Bi))"
  proof (cases Lm)
    case True
    from key[OF dm[folded M_def] True[unfolded Lm_def]]
    obtain k0 where k0: "map_of M (candidates M n ! 0) = Some k0" and a: "Am \<longleftrightarrow> k = k0"
      unfolding Am_def by blast
    have res: "R = Some (k0, Main_pool)" unfolding R_eq using True k0 by simp
    from True one_m have "n \<noteq> []" and Bm by simp_all
    then show ?thesis unfolding res using a by auto
  next
    case nLm: False
    show ?thesis
    proof (cases Li)
      case True
      from key[OF di[folded I_def] True[unfolded Li_def]]
      obtain k0 where k0: "map_of I (candidates I n ! 0) = Some k0" and a: "Ai \<longleftrightarrow> k = k0"
        unfolding Ai_def by blast
      have res: "R = Some (k0, Inline_pool)" unfolding R_eq using nLm True k0 by simp
      from True one_i have n: "n \<noteq> []" and Bi by simp_all
      from nLm one_m n have "\<not> Bm" by simp
      then have "\<not> Am" using lift_m by blast
      then show ?thesis unfolding res using a n \<open>\<not> Bm\<close> \<open>Bi\<close> by auto
    next
      case False
      have res: "R = None" unfolding R_eq using nLm False by simp
      from nLm one_m have 1: "n = [] \<or> \<not> Bm" by simp
      from False one_i have 2: "n = [] \<or> \<not> Bi" by simp
      show ?thesis unfolding res using 1 2 lift_m lift_i by auto
    qed
  qed
  then show ?thesis unfolding R_def U_def M_def I_def Am_def Ai_def Bm_def Bi_def .
qed

theorem prefix_resolve_unique_witness:
  "prefix_resolve [(''123'', ''[123 | Smith | 2020 | Citations: 5]''),
                   (''124'', ''[124 | Doe | 2021 | Citations: 2]''),
                   (''2509.01324'', ''[2509.01324 | Roe | 2025 | Citations: 0]'')] []
     ''2509'' = Some (''[2509.01324 | Roe | 2025 | Citations: 0]'', Main_pool)"
proof -
  let ?M = "[(''123'', ''[123 | Smith | 2020 | Citations: 5]''),
             (''124'', ''[124 | Doe | 2021 | Citations: 2]''),
             (''2509.01324'', ''[2509.01324 | Roe | 2025 | Citations: 0]'')]"
  have dm: "distinct (map fst ?M)" by simp
  have di: "distinct (map fst ([] :: (string \<times> string) list))" by simp
  have rhs: "''2509'' \<noteq> [] \<and>
        (\<exists>c. map_of ?M c = Some ''[2509.01324 | Roe | 2025 | Citations: 0]'' \<and>
             startswith c ''2509'' \<and>
             (\<forall>c' \<in> fst ` set ?M. startswith c' ''2509'' \<longrightarrow> c' = c))"
    by (intro conjI exI[where x = "''2509.01324''"]) (simp_all add: startswith_def)
  from prefix_resolve_unique[OF dm di, of "''2509''" "''[2509.01324 | Roe | 2025 | Citations: 0]''"]
  have "prefix_resolve ?M [] ''2509'' = Some (''[2509.01324 | Roe | 2025 | Citations: 0]'', Main_pool)
        \<longleftrightarrow> ''2509'' \<noteq> [] \<and>
        (\<exists>c. map_of ?M c = Some ''[2509.01324 | Roe | 2025 | Citations: 0]'' \<and>
             startswith c ''2509'' \<and>
             (\<forall>c' \<in> fst ` set ?M. startswith c' ''2509'' \<longrightarrow> c' = c))"
    by (rule conjunct1)
  with rhs show ?thesis by (rule iffD2[rotated])
qed

subsection \<open>Unresolved tokens\<close>

text \<open>
  C8 says that a token which is in neither pool and which neither the normalized id nor the
  prefix stage resolves is removed from the final text of the section. The loop overwrites
  the token with its transliteration (\<open>ref = anyascii(ref)\<close>) before it looks it up, and the
  removal \<open>replace(ref, "")\<close> then searches the transliterated token in a text that still
  holds the token as it was found. For the token \<open>[Muller 2020]\<close> spelled with the letter u
  with diaeresis (U+00FC) the loop searches \<open>[Muller 2020]\<close>, finds nothing, and the token
  stays in the final text. Nothing is raised and no citation is added, as the claim says.
\<close>

theorem get_json_summary_unresolved_token_kept:
  "get_json_summary anyascii_umlaut ''openai/gpt-4''
     [''Intro TLDR: sum'' @ [CHR 0x0A] @
      ''See [M'' @ [CHR 0xC3, CHR 0xBC] @ ''ller 2020] here.'']
     [(''[123 | Smith | 2020 | Citations: 5]'',
       \<lparr> quote = ''relevant text'', inline_citations = [] \<rparr>)]
     [] [] False =
   Inr ([\<lparr> sec_title = ''Intro'', sec_tldr = ''sum (LLM Memory)'',
           sec_text = ''See [M'' @ [CHR 0xC3, CHR 0xBC] @ ''ller 2020] here.'',
           sec_citations = [] \<rparr>],
        [])"
  by code_simp

text \<open>The same section with the token in ASCII letters: the token is removed, and the run of
  blanks it leaves is collapsed.\<close>

lemma get_json_summary_ascii_token_removed:
  "get_json_summary anyascii_umlaut ''openai/gpt-4''
     [''Intro TLDR: sum'' @ [CHR 0x0A] @ ''See [Muller 2020] here.'']
     [(''[123 | Smith | 2020 | Citations: 5]'',
       \<lparr> quote = ''relevant text'', inline_citations = [] \<rparr>)]
     [] [] False =
   Inr ([\<lparr> sec_title = ''Intro'', sec_tldr = ''sum (LLM Memory)'',
           sec_text = ''See here.'', sec_citations = [] \<rparr>],
        [])"
  by code_simp

subsection \<open>Section segmentation\<close>

lemma str_lower_tldr: "str_lower ''tldr'' = ''tldr''"
  by code_simp

lemma matches_tldr_Nil:
  assumes "\<forall>j < length t. str_lower (take 4 (drop j t)) \<noteq> ''tldr''"
  shows "matches (Seq (Str True ''tldr'') r) t j = []"
proof -
  have len: "length ''tldr'' = 4" by simp
  have "str_lower (take 4 (drop j t)) \<noteq> ''tldr''"
  proof (cases "j < length t")
    case True
    with assms show ?thesis by blast
  next
    case False
    then show ?thesis by (simp add: str_lower_def)
  qed
  then have "\<not> lit_eq True (take (length ''tldr'') (drop j t)) ''tldr''"
    unfolding len lit_eq_def str_lower_tldr by simp
  then have "matches (Str True ''tldr'') t j = []"
    by (simp only: matches.simps if_False)
  then show ?thesis by (simp only: matches.simps list.map concat.simps)
qed

lemma matches_Seq_Nil:
  assumes "\<And>j. matches b t j = []"
  shows "matches (Seq a b) t i = []"
  using assms by simp

lemma search_from_None:
  "(\<forall>j. rx_match r t j = None) \<Longrightarrow> search_from r t i = None"
proof (induction r t i rule: search_from.induct)
  case (1 r t i)
  show ?case
  proof (cases "length t < i")
    case True
    then show ?thesis by (subst search_from.simps) simp
  next
    case False
    have m: "rx_match r t i = None" using "1.prems" by blast
    from "1.IH"[OF False m "1.prems"] have "search_from r t (Suc i) = None" .
    then show ?thesis using False m by (subst search_from.simps) simp
  qed
qed

lemma find_tldr_None:
  assumes "\<forall>j < length t. str_lower (take 4 (drop j t)) \<noteq> ''tldr''"
  shows "find_tldr_super_token t = None"
proof -
  have "matches tldr_rx t j = []" for j
    unfolding tldr_rx_def
    by (intro matches_Seq_Nil matches_tldr_Nil[OF assms])
  then have "rx_search tldr_rx t = None"
    unfolding rx_search_def by (intro search_from_None) (simp add: rx_match_def)
  then show ?thesis by (simp add: find_tldr_super_token_def)
qed

lemma split_from_end:
  assumes "sep \<noteq> []" and "\<forall>j < length pre. \<not> startswith (drop j (pre @ sep)) sep"
  shows "split_from sep acc (pre @ sep) = [rev acc @ pre, []]"
  using assms(2)
proof (induction pre arbitrary: acc)
  case Nil
  from assms(1) obtain x xs where sep: "sep = x # xs" by (cases sep) auto
  have "startswith sep sep" by (simp add: startswith_def)
  then show ?case using assms(1) unfolding sep by simp
next
  case (Cons c cs)
  from Cons.prems have 0: "\<not> startswith ((c # cs) @ sep) sep" by force
  have "\<forall>j < length cs. \<not> startswith (drop j (cs @ sep)) sep"
  proof (intro allI impI)
    fix j assume "j < length cs"
    then have "Suc j < length (c # cs)" by simp
    with Cons.prems have "\<not> startswith (drop (Suc j) ((c # cs) @ sep)) sep" by blast
    then show "\<not> startswith (drop j (cs @ sep)) sep" by simp
  qed
  from Cons.IH[OF this] have "split_from sep (c # acc) (cs @ sep) = [rev (c # acc) @ cs, []]" .
  then show ?case using 0 by simp
qed

lemma search_from_Some:
  "search_from r t i = Some (a, e) \<Longrightarrow> rx_match r t a = Some e \<and> a \<le> length t"
proof (induction r t i rule: search_from.induct)
  case (1 r t i)
  show ?case
  proof (cases "length t < i")
    case True
    with "1.prems" show ?thesis by (subst (asm) search_from.simps) simp
  next
    case False
    show ?thesis
    proof (cases "rx_match r t i")
      case None
      with False "1.prems" have "search_from r t (Suc i) = Some (a, e)"
        by (subst (asm) search_from.simps) simp
      from "1.IH"[OF False None this] show ?thesis .
    next
      case (Some e')
      with False "1.prems" have "a = i" "e = e'"
        by (subst (asm) search_from.simps, simp)+
      with Some False show ?thesis by simp
    qed
  qed
qed

lemma rx_match_in: "rx_match r t a = Some e \<Longrightarrow> e \<in> set (matches r t a)"
  by (cases "matches r t a") (auto simp: rx_match_def)

lemma run_len_le: "i + run_len p t i \<le> max i (length t)"
proof -
  have "length (takeWhile p (drop i t)) \<le> length (drop i t)" by (rule length_takeWhile_le)
  then show ?thesis by (simp add: run_len_def)
qed

lemma matches_bounds:
  "i \<le> length t \<Longrightarrow> e \<in> set (matches r t i) \<Longrightarrow> i \<le> e \<and> e \<le> length t"
proof (induction r arbitrary: i e)
  case (Str ic w)
  from Str.prems(2) have l: "lit_eq ic (take (length w) (drop i t)) w" and e: "e = i + length w"
    by (auto split: if_splits)
  have "length (take (length w) (drop i t)) = length w"
  proof (cases ic)
    case True
    with l have "map lower_char (take (length w) (drop i t)) = map lower_char w"
      by (simp add: lit_eq_def str_lower_def)
    then show ?thesis by (rule map_eq_imp_length_eq)
  next
    case False
    with l have "take (length w) (drop i t) = w" by (simp add: lit_eq_def)
    then show ?thesis by (rule arg_cong)
  qed
  then have "length w \<le> length t - i" by simp
  with Str.prems(1) e show ?case by simp
next
  case (Star p)
  then show ?case using run_len_le[of i p t] by auto
next
  case (Plus p)
  then show ?case using run_len_le[of i p t] by auto
next
  case (LazyStar p)
  then show ?case using run_len_le[of i p t] by auto
next
  case (Opt r)
  from Opt.prems(2) consider "e \<in> set (matches r t i)" | "e = i" by auto
  then show ?case
  proof cases
    case 1
    from Opt.IH[OF Opt.prems(1) 1] show ?thesis .
  next
    case 2
    with Opt.prems(1) show ?thesis by simp
  qed
next
  case (Seq a b)
  from Seq.prems(2) obtain j where j: "j \<in> set (matches a t i)" and e: "e \<in> set (matches b t j)"
    by auto
  from Seq.IH(1)[OF Seq.prems(1) j] have 1: "i \<le> j" "j \<le> length t" by simp_all
  from Seq.IH(2)[OF 1(2) e] 1 show ?case by simp
next
  case WordB
  then show ?case by (auto split: if_splits)
qed

lemma matches_Str_Seq_min:
  assumes "j \<le> length t" and "e \<in> set (matches (Seq (Str ic w) b) t j)"
  shows "j + length w \<le> e \<and> e \<le> length t"
proof -
  from assms(2) obtain k where k: "k \<in> set (matches (Str ic w) t j)"
    and e: "e \<in> set (matches b t k)" by auto
  from k have kk: "k = j + length w" by (auto split: if_splits)
  from matches_bounds[OF assms(1) k] have 2: "k \<le> length t" by simp
  from matches_bounds[OF 2 e] have "k \<le> e" "e \<le> length t" by simp_all
  with kk show ?thesis by simp
qed

lemma matches_Seq_min:
  assumes x: "\<And>j e. j \<le> length t \<Longrightarrow> e \<in> set (matches x t j) \<Longrightarrow> j + n \<le> e \<and> e \<le> length t"
    and i: "i \<le> length t" and e: "e \<in> set (matches (Seq a x) t i)"
  shows "i + n \<le> e \<and> e \<le> length t"
proof -
  from e obtain j where j: "j \<in> set (matches a t i)" and ej: "e \<in> set (matches x t j)"
    by auto
  from matches_bounds[OF i j] have 1: "i \<le> j" "j \<le> length t" by simp_all
  from x[OF 1(2) ej] 1 show ?thesis by simp
qed

lemma rx_search_min:
  assumes x: "\<And>j e. j \<le> length t \<Longrightarrow> e \<in> set (matches r t j) \<Longrightarrow> j + n \<le> e \<and> e \<le> length t"
    and s: "rx_search r t = Some (i, e)"
  shows "n \<le> length (substring t i e)"
proof -
  from s have "rx_match r t i = Some e \<and> i \<le> length t"
    unfolding rx_search_def by (rule search_from_Some)
  then have m: "e \<in> set (matches r t i)" and i: "i \<le> length t"
    using rx_match_in by blast+
  from x[OF i m] have a: "i + n \<le> e" and b: "e \<le> length t" by simp_all
  from a b show ?thesis by (simp add: substring_def)
qed

lemma tldr_rx_min:
  assumes "j \<le> length t" and "e \<in> set (matches tldr_rx t j)"
  shows "j + length ''tldr'' \<le> e \<and> e \<le> length t"
proof -
  have A: "\<And>j e. j \<le> length t \<Longrightarrow>
      e \<in> set (matches (Seq (Str True ''tldr'') (Seq (Star is_word) WordB)) t j) \<Longrightarrow>
      j + length ''tldr'' \<le> e \<and> e \<le> length t"
    by (rule matches_Str_Seq_min)
  have B: "\<And>j e. j \<le> length t \<Longrightarrow>
      e \<in> set (matches (Seq (Star is_word)
                 (Seq (Str True ''tldr'') (Seq (Star is_word) WordB))) t j) \<Longrightarrow>
      j + length ''tldr'' \<le> e \<and> e \<le> length t"
    by (rule matches_Seq_min[OF A])
  from matches_Seq_min[where x = "Seq (Star is_word)
                 (Seq (Str True ''tldr'') (Seq (Star is_word) WordB))" and a = WordB,
         OF B assms(1) assms(2)[unfolded tldr_rx_def]]
  show ?thesis .
qed

lemma super_token_rx_min:
  assumes "j \<le> length t" and "e \<in> set (matches (super_token_rx w) t j)"
  shows "j + length w \<le> e \<and> e \<le> length t"
proof -
  have A: "\<And>j e. j \<le> length t \<Longrightarrow>
      e \<in> set (matches (Seq (Str True w) (Star (\<lambda>c. \<not> is_space c))) t j) \<Longrightarrow>
      j + length w \<le> e \<and> e \<le> length t"
    by (rule matches_Str_Seq_min)
  from matches_Seq_min[where x = "Seq (Str True w) (Star (\<lambda>c. \<not> is_space c))",
         OF A assms(1) assms(2)[unfolded super_token_rx_def]]
  show ?thesis .
qed

lemma find_tldr_super_token_length:
  assumes "find_tldr_super_token t = Some tok"
  shows "4 \<le> length tok"
proof -
  from assms obtain i e where 1: "rx_search tldr_rx t = Some (i, e)"
    unfolding find_tldr_super_token_def by (cases "rx_search tldr_rx t") auto
  define w where "w = substring t i e"
  from assms 1 obtain i' e' where 2: "rx_search (super_token_rx w) t = Some (i', e')"
    and tok: "tok = substring t i' e'"
    unfolding find_tldr_super_token_def w_def Let_def
    by (cases "rx_search (super_token_rx (substring t i e)) t") auto
  have "length ''tldr'' \<le> length w"
    unfolding w_def by (rule rx_search_min[OF tldr_rx_min 1])
  then have w4: "4 \<le> length w" by simp
  have "length w \<le> length tok"
    unfolding tok by (rule rx_search_min[OF super_token_rx_min 2])
  with w4 show ?thesis by simp
qed

text \<open>
  C6: a text in which \<open>tldr\<close> occurs nowhere, in any mix of cases, makes get\_section\_text
  raise the exception of line 154; and a text that ends with the located token, found there
  for the first time, makes it raise IndexError: both reach the caller, no section is
  returned.
\<close>

theorem get_section_text_errors:
  "((\<forall>j < length text. str_lower (take 4 (drop j text)) \<noteq> ''tldr'') \<longrightarrow>
       get_section_text text = Inl InvalidContent) \<and>
   (find_tldr_super_token (pre @ tok) = Some tok \<and>
    (\<forall>j < length pre. \<not> startswith (drop j (pre @ tok)) tok) \<longrightarrow>
       get_section_text (pre @ tok) = Inl IndexError)"
proof (intro conjI impI)
  assume "\<forall>j < length text. str_lower (take 4 (drop j text)) \<noteq> ''tldr''"
  then have "find_tldr_super_token text = None" by (rule find_tldr_None)
  then show "get_section_text text = Inl InvalidContent"
    by (simp add: get_section_text_def)
next
  assume a: "find_tldr_super_token (pre @ tok) = Some tok \<and>
    (\<forall>j < length pre. \<not> startswith (drop j (pre @ tok)) tok)"
  then have f: "find_tldr_super_token (pre @ tok) = Some tok"
    and first: "\<forall>j < length pre. \<not> startswith (drop j (pre @ tok)) tok" by blast+
  from find_tldr_super_token_length[OF f] have ne: "tok \<noteq> []" by auto
  have parts: "str_split (pre @ tok) tok = [pre, []]"
    unfolding str_split_def using split_from_end[OF ne first, of "[]"] by simp
  have e: "py_strip [] = []"
    by (simp add: py_strip_def strip_chars_def lstrip_chars_def rstrip_chars_def)
  show "get_section_text (pre @ tok) = Inl IndexError"
    unfolding get_section_text_def f using ne
    by (simp add: parts Let_def e str_split1_def)
qed

lemma all_less_list_all: "(\<forall>j < n. P j) \<longleftrightarrow> list_all P [0 ..< n]"
  by (auto simp: list_all_iff)

theorem get_section_text_errors_witness:
  "get_section_text ''Intro no marker'' = Inl InvalidContent \<and>
   get_section_text (''Intro '' @ ''TLDR:'') = Inl IndexError"
proof -
  note t = get_section_text_errors[of "''Intro no marker''" "''Intro ''" "''TLDR:''"]
  have 1: "\<forall>j < length ''Intro no marker''.
             str_lower (take 4 (drop j ''Intro no marker'')) \<noteq> ''tldr''"
    unfolding all_less_list_all by code_simp
  have 2: "find_tldr_super_token (''Intro '' @ ''TLDR:'') = Some ''TLDR:''" by code_simp
  have 4: "\<forall>j < length ''Intro ''. \<not> startswith (drop j (''Intro '' @ ''TLDR:'')) ''TLDR:''"
    unfolding all_less_list_all by code_simp
  from t[THEN conjunct1, THEN mp, OF 1] t[THEN conjunct2, THEN mp, OF conjI[OF 2 4]]
  show ?thesis by (rule conjI)
qed

subsection \<open>Label disambiguation\<close>

text \<open>
  C1, as stated: no two distinct corpus ids ever get the same label. Labels are only
  compared under one author and year string, so the suffixed label of one string can be the
  plain label of another: corpus ids 1 and 3 below both get \<open>(Smith_1, 2021)\<close>.
\<close>

theorem resolve_ref_id_label_clash:
  "resolve_all [(''(Smith_1, 2021)'', ''1''), (''(Smith, 2021)'', ''2''),
                (''(Smith, 2021)'', ''3'')] [] =
     ([''(Smith_1, 2021)'', ''(Smith, 2021)'', ''(Smith_1, 2021)''],
      [(''(Smith_1, 2021)'', [(''1'', ''(Smith_1, 2021)'')]),
       (''(Smith, 2021)'', [(''2'', ''(Smith, 2021)''), (''3'', ''(Smith_1, 2021)'')])])"
  by code_simp

lemma digit_inj:
  assumes "i < 10" "j < 10" "''0123456789'' ! i = ''0123456789'' ! j"
  shows "i = j"
proof -
  have d: "distinct ''0123456789''" by simp
  have l: "length ''0123456789'' = 10" by simp
  from assms show ?thesis using nth_eq_iff_index_eq[OF d, of i j] unfolding l by simp
qed

lemma str_nat_nonempty: "str_nat n \<noteq> []"
  by (subst str_nat.simps) simp

lemma str_nat_inj: "str_nat n = str_nat m \<Longrightarrow> n = m"
proof (induction n arbitrary: m rule: str_nat.induct)
  case (1 n)
  show ?case
  proof (cases "n < 10")
    case True
    then have n: "str_nat n = [''0123456789'' ! n]" by (subst str_nat.simps) simp
    show ?thesis
    proof (cases "m < 10")
      case mt: True
      then have "str_nat m = [''0123456789'' ! m]" by (subst str_nat.simps) simp
      with n "1.prems" have "''0123456789'' ! n = ''0123456789'' ! m" by simp
      with True mt show ?thesis by (rule digit_inj)
    next
      case False
      then have "str_nat m = str_nat (m div 10) @ [''0123456789'' ! (m mod 10)]"
        by (subst str_nat.simps) simp
      with n "1.prems" have "str_nat (m div 10) = []" by simp
      then show ?thesis using str_nat_nonempty by blast
    qed
  next
    case False
    then have n: "str_nat n = str_nat (n div 10) @ [''0123456789'' ! (n mod 10)]"
      by (subst str_nat.simps) simp
    show ?thesis
    proof (cases "m < 10")
      case True
      then have "str_nat m = [''0123456789'' ! m]" by (subst str_nat.simps) simp
      with n "1.prems" have "str_nat (n div 10) = []" by simp
      then show ?thesis using str_nat_nonempty by blast
    next
      case mf: False
      then have m: "str_nat m = str_nat (m div 10) @ [''0123456789'' ! (m mod 10)]"
        by (subst str_nat.simps) simp
      from n m "1.prems" have a: "str_nat (n div 10) = str_nat (m div 10)"
        and b: "''0123456789'' ! (n mod 10) = ''0123456789'' ! (m mod 10)" by simp_all
      from "1.IH"[OF False a] have "n div 10 = m div 10" .
      moreover have "n mod 10 = m mod 10" by (rule digit_inj[OF _ _ b]) simp_all
      ultimately show ?thesis by (metis div_mult_mod_eq)
    qed
  qed
qed

lemma split_from_first:
  "split_from sep acc s = p # q # ps \<Longrightarrow> \<exists>rest. rev acc @ s = p @ sep @ rest"
proof (induction sep acc s arbitrary: p q ps rule: split_from.induct)
  case (1 sep acc)
  then show ?case by simp
next
  case (2 sep acc c cs)
  show ?case
  proof (cases "sep \<noteq> [] \<and> startswith (c # cs) sep")
    case True
    with "2.prems" have p: "p = rev acc" by simp
    from True have "c # cs = sep @ drop (length sep) (c # cs)"
      unfolding startswith_def by (metis append_take_drop_id)
    with p show ?thesis by (metis)
  next
    case False
    with "2.prems" have "split_from sep (c # acc) cs = p # q # ps" by auto
    from "2.IH"(2)[OF False this] show ?thesis by simp
  qed
qed

lemma nth_label_inj: "nth_label s i = nth_label s j \<Longrightarrow> i = j"
proof -
  assume eq: "nth_label s i = nth_label s j"
  define sp where "sp = str_split s '',''"
  have suff_inj: "\<And>a b. suffixed_label s a = suffixed_label s b \<Longrightarrow> a = b"
  proof -
    fix a b assume e: "suffixed_label s a = suffixed_label s b"
    have "str_nat a = str_nat b"
    proof (cases "1 < length sp")
      case True
      with e show ?thesis
        unfolding suffixed_label_def Let_def sp_def[symmetric] by simp
    next
      case False
      with e show ?thesis
        unfolding suffixed_label_def Let_def sp_def[symmetric] by simp
    qed
    then show "a = b" by (rule str_nat_inj)
  qed
  have suff_ne: "suffixed_label s a \<noteq> s" for a
  proof (cases "1 < length sp")
    case True
    then obtain p sp' where 1: "sp = p # sp'" by (cases sp) auto
    with True obtain q ps where 2: "sp' = q # ps" by (cases sp') auto
    from 1 2 have sp: "sp = p # q # ps" by simp
    then have "split_from '','' [] s = p # q # ps" by (simp add: sp_def str_split_def)
    from split_from_first[OF this] obtain rest where s: "s = p @ '','' @ rest" by auto
    have "suffixed_label s a = p @ ''_'' @ str_nat a @ '','' @ q"
      unfolding suffixed_label_def Let_def sp_def[symmetric] using sp by simp
    moreover have "p @ ''_'' @ str_nat a @ '','' @ q \<noteq> p @ '','' @ rest" by simp
    ultimately show ?thesis using s by simp
  next
    case False
    have "suffixed_label s a = s @ ''_'' @ str_nat a"
      unfolding suffixed_label_def Let_def sp_def[symmetric] using False by simp
    then show ?thesis by simp
  qed
  show "i = j"
    using eq suff_inj suff_ne[of i] suff_ne[of j] unfolding nth_label_def
    by (auto split: if_splits)
qed


lemma update_append: "map_of l c = None \<Longrightarrow> AList.update c v l = l @ [(c, v)]"
  by (induction l) (auto split: if_splits)

lemma resolve_ref_id_old:
  "map_of st s = Some l \<Longrightarrow> map_of l c = Some lb \<Longrightarrow> resolve_ref_id s c st = (lb, st)"
  by (simp add: resolve_ref_id_def)

lemma resolve_ref_id_new:
  assumes "l0 = (case map_of st s of None \<Rightarrow> [] | Some l \<Rightarrow> l)" and "map_of l0 c = None"
  shows "\<exists>st'. resolve_ref_id s c st = (nth_label s (length l0), st') \<and>
           map_of st' = (map_of st)(s \<mapsto> l0 @ [(c, nth_label s (length l0))])"
proof (cases "map_of st s")
  case None
  with assms have l0: "l0 = []" by simp
  show ?thesis
    unfolding l0 using None
    by (simp add: resolve_ref_id_def Let_def update_conv')
next
  case (Some l)
  with assms have l0: "l0 = l" by simp
  show ?thesis
    unfolding l0 using Some assms(2)[unfolded l0]
    by (simp add: resolve_ref_id_def Let_def update_conv' update_append)
qed

lemma resolve_ref_id_step:
  assumes wf: "labels_wf st" and r: "resolve_ref_id s c st = (lb, st')"
  shows "labels_wf st' \<and> label_of st' s c = Some lb \<and>
         (\<forall>s' c' x. label_of st s' c' = Some x \<longrightarrow> label_of st' s' c' = Some x)"
proof -
  define l0 where "l0 = (case map_of st s of None \<Rightarrow> [] | Some l \<Rightarrow> l)"
  show ?thesis
  proof (cases "map_of l0 c")
    case (Some lb0)
    then obtain l where l: "map_of st s = Some l" and "l0 = l"
      unfolding l0_def by (cases "map_of st s") auto
    with Some have "map_of l c = Some lb0" by simp
    from resolve_ref_id_old[OF l this] r have "lb = lb0" "st' = st" by simp_all
    then show ?thesis using wf l \<open>map_of l c = Some lb0\<close> by (simp add: label_of_def)
  next
    case None
    from resolve_ref_id_new[OF l0_def None] r
    have lb: "lb = nth_label s (length l0)"
      and m: "map_of st' = (map_of st)(s \<mapsto> l0 @ [(c, lb)])" by auto
    have d0: "distinct (map fst l0) \<and> map snd l0 = map (nth_label s) [0 ..< length l0]"
      using wf unfolding l0_def labels_wf_def by (cases "map_of st s") auto
    have cn: "c \<notin> fst ` set l0" using None by (simp add: map_of_eq_None_iff)
    have wf': "labels_wf st'"
      unfolding labels_wf_def
    proof (intro allI impI)
      fix s'' d assume a: "map_of st' s'' = Some d"
      show "distinct (map fst d) \<and> map snd d = map (nth_label s'') [0 ..< length d]"
      proof (cases "s'' = s")
        case True
        with a m have d: "d = l0 @ [(c, lb)]" by simp
        show ?thesis unfolding d True using d0 cn lb by simp
      next
        case False
        with a m have "map_of st s'' = Some d" by simp
        with wf show ?thesis unfolding labels_wf_def by blast
      qed
    qed
    have new: "label_of st' s c = Some lb"
      unfolding label_of_def m using None by (simp add: map_add_def)
    have mono: "\<forall>s' c' x. label_of st s' c' = Some x \<longrightarrow> label_of st' s' c' = Some x"
    proof (intro allI impI)
      fix s' c' x assume a: "label_of st s' c' = Some x"
      show "label_of st' s' c' = Some x"
      proof (cases "s' = s")
        case True
        from a True have "map_of l0 c' = Some x"
          unfolding label_of_def l0_def by (cases "map_of st s") auto
        then show ?thesis unfolding label_of_def m True by (simp add: map_add_def)
      next
        case False
        with a show ?thesis unfolding label_of_def m by simp
      qed
    qed
    from wf' new mono show ?thesis by blast
  qed
qed

lemma labels_wf_inj:
  assumes wf: "labels_wf st" and a: "label_of st s c = Some x" and b: "label_of st s c' = Some x'"
    and ne: "c \<noteq> c'"
  shows "x \<noteq> x'"
proof -
  from a obtain l where l: "map_of st s = Some l" and la: "map_of l c = Some x"
    unfolding label_of_def by (cases "map_of st s") auto
  from b l have lb: "map_of l c' = Some x'" unfolding label_of_def by simp
  from wf l have sn: "map snd l = map (nth_label s) [0 ..< length l]"
    unfolding labels_wf_def by blast
  from la have "(c, x) \<in> set l" by (rule map_of_SomeD)
  then obtain i where i: "i < length l" "l ! i = (c, x)" by (auto simp: in_set_conv_nth)
  from lb have "(c', x') \<in> set l" by (rule map_of_SomeD)
  then obtain j where j: "j < length l" "l ! j = (c', x')" by (auto simp: in_set_conv_nth)
  from i j ne have ij: "i \<noteq> j" by auto
  have "x = map snd l ! i" using i by simp
  then have xi: "x = nth_label s i" unfolding sn using i by simp
  have "x' = map snd l ! j" using j by simp
  then have xj: "x' = nth_label s j" unfolding sn using j by simp
  show ?thesis using ij nth_label_inj unfolding xi xj by blast
qed

lemma resolve_all_inv:
  assumes "labels_wf st" and "resolve_all calls st = (labels, fin)"
  shows "labels_wf fin \<and> length labels = length calls \<and>
         (\<forall>i < length calls. label_of fin (fst (calls ! i)) (snd (calls ! i)) = Some (labels ! i)) \<and>
         (\<forall>s c x. label_of st s c = Some x \<longrightarrow> label_of fin s c = Some x)"
  using assms
proof (induction calls arbitrary: st labels fin)
  case Nil
  then show ?case by simp
next
  case (Cons call calls)
  obtain s c where call: "call = (s, c)" by (cases call)
  obtain lb st1 where r: "resolve_ref_id s c st = (lb, st1)" by (cases "resolve_ref_id s c st")
  obtain ls fin1 where ra: "resolve_all calls st1 = (ls, fin1)" by (cases "resolve_all calls st1")
  from Cons.prems(2) call r ra have res: "labels = lb # ls" "fin = fin1" by simp_all
  from resolve_ref_id_step[OF Cons.prems(1) r]
  have wf1: "labels_wf st1" and new: "label_of st1 s c = Some lb"
    and mono1: "\<forall>s' c' x. label_of st s' c' = Some x \<longrightarrow> label_of st1 s' c' = Some x"
    by blast+
  from Cons.IH[OF wf1 ra]
  have wff: "labels_wf fin1" and len: "length ls = length calls"
    and at: "\<forall>i < length calls. label_of fin1 (fst (calls ! i)) (snd (calls ! i)) = Some (ls ! i)"
    and mono2: "\<forall>s c x. label_of st1 s c = Some x \<longrightarrow> label_of fin1 s c = Some x"
    by blast+
  have at': "\<forall>i < length (call # calls).
      label_of fin (fst ((call # calls) ! i)) (snd ((call # calls) ! i)) = Some (labels ! i)"
  proof (intro allI impI)
    fix i assume "i < length (call # calls)"
    then show "label_of fin (fst ((call # calls) ! i)) (snd ((call # calls) ! i)) =
               Some (labels ! i)"
      using new mono2 at unfolding res call by (cases i) auto
  qed
  show ?case using wff len at' mono1 mono2 unfolding res by simp
qed

text \<open>
  C1, amended: in a run of calls on one map that starts empty, two calls with the same
  author and year string return the same label exactly when they have the same corpus id:
  distinct corpus ids under one string get distinct labels, and a pair that recurs gets the
  label of its first call.
\<close>

theorem resolve_all_labels:
  assumes run: "resolve_all calls [] = (labels, fin)"
    and i: "i < length calls" and j: "j < length calls"
    and same: "fst (calls ! i) = fst (calls ! j)"
  shows "labels ! i = labels ! j \<longleftrightarrow> snd (calls ! i) = snd (calls ! j)"
proof -
  have wf0: "labels_wf []" by (simp add: labels_wf_def)
  from resolve_all_inv[OF wf0 run]
  have wf: "labels_wf fin"
    and at: "\<forall>i < length calls. label_of fin (fst (calls ! i)) (snd (calls ! i)) = Some (labels ! i)"
    by blast+
  from at i have a: "label_of fin (fst (calls ! i)) (snd (calls ! i)) = Some (labels ! i)" by blast
  from at j same have b: "label_of fin (fst (calls ! i)) (snd (calls ! j)) = Some (labels ! j)"
    by simp
  show ?thesis
  proof
    assume "labels ! i = labels ! j"
    then show "snd (calls ! i) = snd (calls ! j)"
      using labels_wf_inj[OF wf a b] by blast
  next
    assume "snd (calls ! i) = snd (calls ! j)"
    with a b show "labels ! i = labels ! j" by simp
  qed
qed

lemma resolve_all_smith:
  "resolve_all [(''(Smith, 2021)'', ''1''), (''(Smith, 2021)'', ''2''),
                (''(Smith, 2021)'', ''1'')] [] =
     ([''(Smith, 2021)'', ''(Smith_1, 2021)'', ''(Smith, 2021)''],
      [(''(Smith, 2021)'', [(''1'', ''(Smith, 2021)''), (''2'', ''(Smith_1, 2021)'')])])"
  by code_simp

theorem resolve_all_labels_witness:
  "[''(Smith, 2021)'', ''(Smith_1, 2021)'', ''(Smith, 2021)''] ! 0 \<noteq>
   [''(Smith, 2021)'', ''(Smith_1, 2021)'', ''(Smith, 2021)''] ! 1 \<and>
   [''(Smith, 2021)'', ''(Smith_1, 2021)'', ''(Smith, 2021)''] ! 0 =
   [''(Smith, 2021)'', ''(Smith_1, 2021)'', ''(Smith, 2021)''] ! 2"
proof -
  note t = resolve_all_labels[OF resolve_all_smith]
  have a: "[''(Smith, 2021)'', ''(Smith_1, 2021)'', ''(Smith, 2021)''] ! 0 =
           [''(Smith, 2021)'', ''(Smith_1, 2021)'', ''(Smith, 2021)''] ! 1 \<longleftrightarrow>
           snd ([(''(Smith, 2021)'', ''1''), (''(Smith, 2021)'', ''2''),
                 (''(Smith, 2021)'', ''1'')] ! 0) =
           snd ([(''(Smith, 2021)'', ''1''), (''(Smith, 2021)'', ''2''),
                 (''(Smith, 2021)'', ''1'')] ! 1)"
    by (rule t[of 0 1]) simp_all
  have b: "[''(Smith, 2021)'', ''(Smith_1, 2021)'', ''(Smith, 2021)''] ! 0 =
           [''(Smith, 2021)'', ''(Smith_1, 2021)'', ''(Smith, 2021)''] ! 2 \<longleftrightarrow>
           snd ([(''(Smith, 2021)'', ''1''), (''(Smith, 2021)'', ''2''),
                 (''(Smith, 2021)'', ''1'')] ! 0) =
           snd ([(''(Smith, 2021)'', ''1''), (''(Smith, 2021)'', ''2''),
                 (''(Smith, 2021)'', ''1'')] ! 2)"
    by (rule t[of 0 2]) simp_all
  from a b show ?thesis by simp
qed

end
